theory Spec2Isabelle
  imports Main
begin

section \<open>Errors\<close>

text \<open>
  The failure kinds a call can end with.  The first four are the named failure kinds of
  the design document; the wrapper class \<^verbatim>\<open>LabeledTransformTree\<close> contains no
  \<^verbatim>\<open>throw\<close> statement, so none of its operations below ever produces one of
  them.  \<open>InvalidDescriptor\<close> stands for a call of a graph primitive on a vertex or
  edge descriptor that does not denote a live vertex or edge of the graph (a null or
  dangling pointer: undefined behaviour in C++), \<open>OutOfRange\<close> for
  \<^verbatim>\<open>std::out_of_range\<close> and \<open>AssertionFailed\<close> for a failed
  \<^verbatim>\<open>assert\<close>.
\<close>

datatype error =
    DuplicateFrame
  | UnknownFrame
  | UnknownEdge
  | InvalidRoot
  | InvalidDescriptor
  | OutOfRange
  | AssertionFailed

text \<open>Sequencing of fallible steps: the first failure ends the call.\<close>

definition and_then :: "error + 'a \<Rightarrow> ('a \<Rightarrow> error + 'b) \<Rightarrow> error + 'b" where
  "and_then r f = (case r of Inl e \<Rightarrow> Inl e | Inr x \<Rightarrow> f x)"

section \<open>Frames (Frame.hpp)\<close>

record Frame =
  name :: string
  uuid :: nat
  items :: "nat list"

text \<open>
  Modelled from the spec: the constructor \<^verbatim>\<open>Frame(const std::string &name)\<close> is
  declared in Frame.hpp and defined outside the sources at hand.  A new frame carries the
  given name and no items; its identifier plays no role below and is the nil identifier.
\<close>

definition Frame_of_name :: "string \<Rightarrow> Frame" where
  "Frame_of_name n = \<lparr>name = n, uuid = 0, items = []\<rparr>"

section \<open>The graph container underneath (Boost Graph Library)\<close>

text \<open>
  \<^verbatim>\<open>LabeledTransformTree\<close> derives from
  \<^verbatim>\<open>boost::labeled_graph<TransformGraph, std::string>\<close>, a
  \<^verbatim>\<open>boost::directed_graph\<close> with a \<^verbatim>\<open>std::map\<close> from labels to vertex
  descriptors beside it.  The container is an external library; this section states the
  behaviour of the primitives the wrapper calls, as the library documents and implements
  them.

  A vertex descriptor is the address of the stored vertex, \<open>null_vertex\<close> the null
  pointer.  An edge descriptor carries the source, the target and the address of the
  stored edge property.  The transform payload is opaque: the type parameter \<open>'t\<close>.
\<close>

type_synonym vertex_descriptor = nat

type_synonym edge_descriptor = "vertex_descriptor \<times> vertex_descriptor \<times> nat"

type_synonym VertexLabel = string

definition null_vertex :: vertex_descriptor where
  "null_vertex = 0"

record 't LabeledTransformTree =
  vertex_list :: "(vertex_descriptor \<times> Frame) list"
  edge_list :: "(edge_descriptor \<times> 't) list"
  label_map :: "VertexLabel \<rightharpoonup> vertex_descriptor"

definition empty_tree :: "'t LabeledTransformTree" where
  "empty_tree = \<lparr>vertex_list = [], edge_list = [], label_map = Map.empty\<rparr>"

definition has_vertex :: "'t LabeledTransformTree \<Rightarrow> vertex_descriptor \<Rightarrow> bool" where
  "has_vertex g v = (v \<in> set (map fst (vertex_list g)))"

definition has_edge :: "'t LabeledTransformTree \<Rightarrow> edge_descriptor \<Rightarrow> bool" where
  "has_edge g e = (e \<in> set (map fst (edge_list g)))"

definition source :: "edge_descriptor \<Rightarrow> vertex_descriptor" where
  "source e = fst e"

definition target :: "edge_descriptor \<Rightarrow> vertex_descriptor" where
  "target e = fst (snd e)"

definition edge_address :: "edge_descriptor \<Rightarrow> nat" where
  "edge_address e = snd (snd e)"

text \<open>
  Allocation: a new vertex (edge property) lives at an address that is not null and
  differs from the address of every live vertex (edge property).
\<close>

definition fresh_address :: "nat list \<Rightarrow> nat" where
  "fresh_address used = Suc (foldr max used 0)"

definition num_vertices :: "'t LabeledTransformTree \<Rightarrow> nat" where
  "num_vertices g = length (vertex_list g)"

definition num_edges :: "'t LabeledTransformTree \<Rightarrow> nat" where
  "num_edges g = length (edge_list g)"

text \<open>\<^verbatim>\<open>boost::add_vertex(g)\<close> followed by the store of the vertex property.\<close>

definition boost_add_vertex ::
  "'t LabeledTransformTree \<Rightarrow> Frame \<Rightarrow> 't LabeledTransformTree \<times> vertex_descriptor" where
  "boost_add_vertex g p =
     (let v = fresh_address (map fst (vertex_list g))
      in (g\<lparr>vertex_list := vertex_list g @ [(v, p)]\<rparr>, v))"

text \<open>
  \<^verbatim>\<open>labeled_graph::add_vertex(label, property)\<close>: the label is inserted into the
  \<^verbatim>\<open>std::map\<close> first, and a vertex is added only when the insertion took place;
  for a label that is already a key the mapped descriptor is returned and nothing
  changes.
\<close>

definition labeled_add_vertex ::
  "'t LabeledTransformTree \<Rightarrow> VertexLabel \<Rightarrow> Frame \<Rightarrow> 't LabeledTransformTree \<times> vertex_descriptor" where
  "labeled_add_vertex g l p =
     (case label_map g l of
        Some v \<Rightarrow> (g, v)
      | None \<Rightarrow>
          (let (g1, v) = boost_add_vertex g p
           in (g1\<lparr>label_map := (label_map g1)(l \<mapsto> v)\<rparr>, v)))"

text \<open>
  \<^verbatim>\<open>boost::vertex_by_label(label, g)\<close>: the mapped descriptor, the null vertex for
  a label that is not a key.
\<close>

definition vertex_by_label :: "'t LabeledTransformTree \<Rightarrow> VertexLabel \<Rightarrow> vertex_descriptor" where
  "vertex_by_label g l = (case label_map g l of Some v \<Rightarrow> v | None \<Rightarrow> null_vertex)"

text \<open>
  \<^verbatim>\<open>boost::clear_vertex(v, g)\<close>: removes every edge to and from \<open>v\<close>.
\<close>

definition boost_clear_vertex ::
  "'t LabeledTransformTree \<Rightarrow> vertex_descriptor \<Rightarrow> error + 't LabeledTransformTree" where
  "boost_clear_vertex g v =
     (if has_vertex g v
      then Inr (g\<lparr>edge_list := filter (\<lambda>(e, t). source e \<noteq> v \<and> target e \<noteq> v) (edge_list g)\<rparr>)
      else Inl InvalidDescriptor)"

text \<open>
  \<^verbatim>\<open>boost::remove_vertex(v, g.graph())\<close> on the underlying directed graph: the
  vertex leaves the vertex list.  Edges are not looked at (the library asks the caller to
  clear the vertex first), and the label map, which belongs to the labeled wrapper, is
  not touched.
\<close>

definition boost_remove_vertex ::
  "'t LabeledTransformTree \<Rightarrow> vertex_descriptor \<Rightarrow> error + 't LabeledTransformTree" where
  "boost_remove_vertex g v =
     (if has_vertex g v
      then Inr (g\<lparr>vertex_list := filter (\<lambda>(u, p). u \<noteq> v) (vertex_list g)\<rparr>)
      else Inl InvalidDescriptor)"

text \<open>
  \<^verbatim>\<open>labeled_graph::remove_vertex(label)\<close> is
  \<^verbatim>\<open>boost::remove_vertex(vertex(label), _graph)\<close>: the label stays a key of the map
  (the library defect the comment in TransformGraphTypes.hpp refers to).
\<close>

definition labeled_remove_vertex ::
  "'t LabeledTransformTree \<Rightarrow> VertexLabel \<Rightarrow> error + 't LabeledTransformTree" where
  "labeled_remove_vertex g l = boost_remove_vertex g (vertex_by_label g l)"

definition clear_vertex_by_label ::
  "'t LabeledTransformTree \<Rightarrow> VertexLabel \<Rightarrow> error + 't LabeledTransformTree" where
  "clear_vertex_by_label g l = boost_clear_vertex g (vertex_by_label g l)"

text \<open>
  \<^verbatim>\<open>boost::edge(u, v, g)\<close>: the first stored edge from \<open>u\<close> to \<open>v\<close> with
  \<open>True\<close>, or a default descriptor with \<open>False\<close>.  The out-edges of \<open>u\<close> are
  searched for the target \<open>v\<close>: only \<open>u\<close> is dereferenced.
\<close>

definition edges_between ::
  "'t LabeledTransformTree \<Rightarrow> vertex_descriptor \<Rightarrow> vertex_descriptor \<Rightarrow> edge_descriptor list" where
  "edges_between g u v = filter (\<lambda>e. source e = u \<and> target e = v) (map fst (edge_list g))"

definition boost_edge ::
  "'t LabeledTransformTree \<Rightarrow> vertex_descriptor \<Rightarrow> vertex_descriptor \<Rightarrow> error + (edge_descriptor \<times> bool)" where
  "boost_edge g u v =
     (if has_vertex g u
      then (case edges_between g u v of
              [] \<Rightarrow> Inr ((null_vertex, null_vertex, 0), False)
            | e # es \<Rightarrow> Inr (e, True))
      else Inl InvalidDescriptor)"

definition edge_by_label ::
  "'t LabeledTransformTree \<Rightarrow> VertexLabel \<Rightarrow> VertexLabel \<Rightarrow> error + (edge_descriptor \<times> bool)" where
  "edge_by_label g a b = boost_edge g (vertex_by_label g a) (vertex_by_label g b)"

text \<open>
  \<^verbatim>\<open>boost::add_edge(u, v, property, g)\<close>: the directed graph stores parallel edges,
  so the edge is always added and the flag is \<open>True\<close>.  The edge enters the out-edges
  of \<open>u\<close> and the in-edges of \<open>v\<close>: both are dereferenced.
\<close>

definition boost_add_edge ::
  "'t LabeledTransformTree \<Rightarrow> vertex_descriptor \<Rightarrow> vertex_descriptor \<Rightarrow> 't
     \<Rightarrow> error + ('t LabeledTransformTree \<times> edge_descriptor \<times> bool)" where
  "boost_add_edge g u v tf =
     (if has_vertex g u \<and> has_vertex g v
      then (let e = (u, v, fresh_address (map (\<lambda>(e, t). edge_address e) (edge_list g)))
            in Inr (g\<lparr>edge_list := edge_list g @ [(e, tf)]\<rparr>, e, True))
      else Inl InvalidDescriptor)"

definition add_edge_by_label ::
  "'t LabeledTransformTree \<Rightarrow> VertexLabel \<Rightarrow> VertexLabel \<Rightarrow> 't
     \<Rightarrow> error + ('t LabeledTransformTree \<times> edge_descriptor \<times> bool)" where
  "add_edge_by_label g a b tf = boost_add_edge g (vertex_by_label g a) (vertex_by_label g b) tf"

text \<open>
  \<^verbatim>\<open>boost::put(TransformPropertyTag(), g, e, tf)\<close> and
  \<^verbatim>\<open>boost::get(TransformPropertyTag(), g, e)\<close>: write and read the property stored
  for the edge \<open>e\<close>.
\<close>

definition boost_put ::
  "'t LabeledTransformTree \<Rightarrow> edge_descriptor \<Rightarrow> 't \<Rightarrow> error + 't LabeledTransformTree" where
  "boost_put g e tf =
     (if has_edge g e
      then Inr (g\<lparr>edge_list := map (\<lambda>(e', t). if e' = e then (e', tf) else (e', t)) (edge_list g)\<rparr>)
      else Inl InvalidDescriptor)"

definition boost_get :: "'t LabeledTransformTree \<Rightarrow> edge_descriptor \<Rightarrow> error + 't" where
  "boost_get g e =
     (case map_of (edge_list g) e of Some t \<Rightarrow> Inr t | None \<Rightarrow> Inl InvalidDescriptor)"

text \<open>
  \<^verbatim>\<open>boost::remove_edge(u, v, g)\<close> removes every edge from \<open>u\<close> to \<open>v\<close> (none,
  when there is none): the directed graph collects the out-edges of \<open>u\<close> whose target
  is \<open>v\<close> and removes them, so only \<open>u\<close> is dereferenced.
  \<^verbatim>\<open>boost::remove_edge(e, g)\<close> removes the edge \<open>e\<close>.
\<close>

definition boost_remove_edge ::
  "'t LabeledTransformTree \<Rightarrow> vertex_descriptor \<Rightarrow> vertex_descriptor \<Rightarrow> error + 't LabeledTransformTree" where
  "boost_remove_edge g u v =
     (if has_vertex g u
      then Inr (g\<lparr>edge_list := filter (\<lambda>(e, t). \<not> (source e = u \<and> target e = v)) (edge_list g)\<rparr>)
      else Inl InvalidDescriptor)"

definition boost_remove_edge_desc ::
  "'t LabeledTransformTree \<Rightarrow> edge_descriptor \<Rightarrow> error + 't LabeledTransformTree" where
  "boost_remove_edge_desc g e =
     (if has_edge g e
      then Inr (g\<lparr>edge_list := filter (\<lambda>(e', t). e' \<noteq> e) (edge_list g)\<rparr>)
      else Inl InvalidDescriptor)"

text \<open>
  \<^verbatim>\<open>boost::in_degree(v, g)\<close> and \<^verbatim>\<open>boost::out_degree(v, g)\<close> read the edge
  lists stored in the vertex \<open>v\<close> points to.
\<close>

definition in_degree :: "'t LabeledTransformTree \<Rightarrow> vertex_descriptor \<Rightarrow> error + nat" where
  "in_degree g v =
     (if has_vertex g v
      then Inr (length (filter (\<lambda>(e, t). target e = v) (edge_list g)))
      else Inl InvalidDescriptor)"

definition out_degree :: "'t LabeledTransformTree \<Rightarrow> vertex_descriptor \<Rightarrow> error + nat" where
  "out_degree g v =
     (if has_vertex g v
      then Inr (length (filter (\<lambda>(e, t). source e = v) (edge_list g)))
      else Inl InvalidDescriptor)"

section \<open>LabeledTransformTree (LabeledTransformTree.hpp)\<close>

subsection \<open>Vertex methods\<close>

definition add_vertex ::
  "'t LabeledTransformTree \<Rightarrow> VertexLabel \<Rightarrow> error + ('t LabeledTransformTree \<times> vertex_descriptor)" where
  "add_vertex g node_label =
     (let node = Frame_of_name node_label
      in Inr (labeled_add_vertex g node_label node))"

definition add_vertex_frame ::
  "'t LabeledTransformTree \<Rightarrow> Frame \<Rightarrow> error + ('t LabeledTransformTree \<times> vertex_descriptor)" where
  "add_vertex_frame g node = Inr (labeled_add_vertex g (name node) node)"

definition vertex :: "'t LabeledTransformTree \<Rightarrow> VertexLabel \<Rightarrow> vertex_descriptor" where
  "vertex g node_label = vertex_by_label g node_label"

definition remove_vertex ::
  "'t LabeledTransformTree \<Rightarrow> VertexLabel \<Rightarrow> error + 't LabeledTransformTree" where
  "remove_vertex g node_label =
     and_then (clear_vertex_by_label g node_label) (\<lambda>g1.
     labeled_remove_vertex g1 node_label)"

definition remove_vertex_desc ::
  "'t LabeledTransformTree \<Rightarrow> vertex_descriptor \<Rightarrow> error + 't LabeledTransformTree" where
  "remove_vertex_desc g vd =
     and_then (boost_clear_vertex g vd) (\<lambda>g1.
     boost_remove_vertex g1 vd)"

subsection \<open>Edge methods\<close>

definition add_edge ::
  "'t LabeledTransformTree \<Rightarrow> VertexLabel \<Rightarrow> VertexLabel \<Rightarrow> 't
     \<Rightarrow> error + ('t LabeledTransformTree \<times> edge_descriptor \<times> bool)" where
  "add_edge g node_from node_to tf =
     and_then (edge_by_label g node_from node_to) (\<lambda>edge_pair.
       if snd edge_pair
       then and_then (boost_put g (fst edge_pair) tf) (\<lambda>g1. Inr (g1, edge_pair))
       else add_edge_by_label g node_from node_to tf)"

definition add_edge_desc ::
  "'t LabeledTransformTree \<Rightarrow> vertex_descriptor \<Rightarrow> vertex_descriptor \<Rightarrow> 't
     \<Rightarrow> error + ('t LabeledTransformTree \<times> edge_descriptor \<times> bool)" where
  "add_edge_desc g node_from node_to tf =
     and_then (boost_edge g node_from node_to) (\<lambda>edge_pair.
       if snd edge_pair
       then and_then (boost_put g (fst edge_pair) tf) (\<lambda>g1. Inr (g1, edge_pair))
       else boost_add_edge g node_from node_to tf)"

text \<open>
  The destructive part shared by the removal overloads: each endpoint in turn, the first
  argument before the second, is removed from the underlying graph when its in-degree
  plus its out-degree is zero.  The degrees are \<^verbatim>\<open>std::size_t\<close>; a sum of two
  list lengths does not wrap.
\<close>

definition remove_if_isolated ::
  "'t LabeledTransformTree \<Rightarrow> vertex_descriptor \<Rightarrow> error + 't LabeledTransformTree" where
  "remove_if_isolated g v =
     and_then (in_degree g v) (\<lambda>in_edges.
     and_then (out_degree g v) (\<lambda>out_edges.
       if in_edges + out_edges = 0 then boost_remove_vertex g v else Inr g))"

definition remove_edge_desc ::
  "'t LabeledTransformTree \<Rightarrow> edge_descriptor \<Rightarrow> bool \<Rightarrow> error + 't LabeledTransformTree" where
  "remove_edge_desc g ed destructive =
     (let svd = source ed; tvd = target ed
      in and_then (boost_remove_edge_desc g ed) (\<lambda>g1.
           if destructive
           then and_then (remove_if_isolated g1 svd) (\<lambda>g2. remove_if_isolated g2 tvd)
           else Inr g1))"

definition remove_edge_vertices ::
  "'t LabeledTransformTree \<Rightarrow> vertex_descriptor \<Rightarrow> vertex_descriptor \<Rightarrow> bool
     \<Rightarrow> error + 't LabeledTransformTree" where
  "remove_edge_vertices g node_from node_to destructive =
     and_then (boost_remove_edge g node_from node_to) (\<lambda>g1.
       if destructive = True
       then and_then (remove_if_isolated g1 node_from) (\<lambda>g2. remove_if_isolated g2 node_to)
       else Inr g1)"

definition remove_edge ::
  "'t LabeledTransformTree \<Rightarrow> VertexLabel \<Rightarrow> VertexLabel \<Rightarrow> bool \<Rightarrow> error + 't LabeledTransformTree" where
  "remove_edge g node_from node_to destructive =
     (let v_from = vertex_by_label g node_from;
          v_to = vertex_by_label g node_to
      in remove_edge_vertices g v_from v_to destructive)"

subsection \<open>Property methods\<close>

text \<open>
  \<^verbatim>\<open>getFrame\<close> and \<^verbatim>\<open>getTransform\<close> read the property stored for a
  descriptor with \<^verbatim>\<open>boost::get\<close>; \<^verbatim>\<open>clear\<close> empties the underlying
  directed graph (\<^verbatim>\<open>this->graph().clear()\<close>) and leaves the label map alone.
\<close>

definition getFrame :: "'t LabeledTransformTree \<Rightarrow> vertex_descriptor \<Rightarrow> error + Frame" where
  "getFrame g vd =
     (case map_of (vertex_list g) vd of Some f \<Rightarrow> Inr f | None \<Rightarrow> Inl InvalidDescriptor)"

definition getTransform :: "'t LabeledTransformTree \<Rightarrow> edge_descriptor \<Rightarrow> error + 't" where
  "getTransform g ed = boost_get g ed"

definition clear :: "'t LabeledTransformTree \<Rightarrow> 't LabeledTransformTree" where
  "clear g = g\<lparr>vertex_list := [], edge_list := []\<rparr>"

section \<open>TreeView (graph/TreeView.hpp)\<close>

record VertexRelation =
  parent :: vertex_descriptor
  children :: "vertex_descriptor set"

type_synonym VertexRelationMap = "vertex_descriptor \<rightharpoonup> VertexRelation"

text \<open>
  Objects live at addresses.  \<open>publisher\<close> is the pointer member
  \<^verbatim>\<open>TreeUpdatePublisher* publisher\<close> (\<open>None\<close> is \<^verbatim>\<open>nullptr\<close>),
  \<open>treeUpdated\<close> the slots connected to the signal of that name.
\<close>

type_synonym view_ref = nat

type_synonym publisher_ref = nat

type_synonym slot = nat

record TreeView =
  publisher :: "publisher_ref option"
  tree :: VertexRelationMap
  crossEdges :: "edge_descriptor list"
  treeUpdated :: "slot list"

text \<open>The default constructor: empty containers, \<^verbatim>\<open>publisher = nullptr\<close>.\<close>

definition TreeView_default :: TreeView where
  "TreeView_default = \<lparr>publisher = None, tree = Map.empty, crossEdges = [], treeUpdated = []\<rparr>"

text \<open>
  \<^verbatim>\<open>isRoot\<close> reads the map with \<^verbatim>\<open>at\<close>, which throws
  \<^verbatim>\<open>std::out_of_range\<close> for a key that is not in the map.
\<close>

definition isRoot :: "TreeView \<Rightarrow> vertex_descriptor \<Rightarrow> error + bool" where
  "isRoot tv vd =
     (case tree tv vd of
        None \<Rightarrow> Inl OutOfRange
      | Some r \<Rightarrow> if parent r = null_vertex then Inr True else Inr False)"

subsection \<open>Views, publishers and the calls between them\<close>

text \<open>
  The state the special member functions of \<^verbatim>\<open>TreeView\<close> act on: the live views,
  by address; for every publisher the views registered with it; and the calls made on
  publishers so far, oldest first.
\<close>

datatype call = Subscribe publisher_ref view_ref | Unsubscribe publisher_ref view_ref

record world =
  views :: "view_ref \<rightharpoonup> TreeView"
  subscribed :: "publisher_ref \<Rightarrow> view_ref list"
  calls :: "call list"

text \<open>
  \<^verbatim>\<open>setPublisher(pub)\<close>: \<^verbatim>\<open>assert(publisher == nullptr)\<close>, then the pointer is
  assigned.  The assertion is compiled out when \<^verbatim>\<open>NDEBUG\<close> is defined; \<open>ndebug\<close>
  says which build runs.  With assertions a second call on a view whose publisher is set
  ends the program, without them it overwrites the pointer.
\<close>

definition setPublisher ::
  "bool \<Rightarrow> world \<Rightarrow> view_ref \<Rightarrow> publisher_ref option \<Rightarrow> error + world" where
  "setPublisher ndebug w this pub =
     (case views w this of
        None \<Rightarrow> Inl InvalidDescriptor
      | Some tv \<Rightarrow>
          if \<not> ndebug \<and> publisher tv \<noteq> None
          then Inl AssertionFailed
          else Inr (w\<lparr>views := (views w)(this \<mapsto> tv\<lparr>publisher := pub\<rparr>)\<rparr>))"

text \<open>
  Modelled from the spec: the implementation of the pure virtual
  \<^verbatim>\<open>TreeUpdatePublisher::subscribeTreeView\<close>, which lives outside the sources at
  hand.  The publisher registers the view as a subscriber; as the comment in the move
  constructor says, subscribing sets the publisher of the view.
\<close>

definition subscribeTreeView ::
  "bool \<Rightarrow> world \<Rightarrow> publisher_ref \<Rightarrow> view_ref \<Rightarrow> error + world" where
  "subscribeTreeView ndebug w p view =
     and_then (setPublisher ndebug w view (Some p)) (\<lambda>w1.
       Inr (w1\<lparr>subscribed := (subscribed w1)(p := subscribed w1 p @ [view]),
               calls := calls w1 @ [Subscribe p view]\<rparr>))"

text \<open>
  Modelled from the spec: the implementation of the pure virtual
  \<^verbatim>\<open>TreeUpdatePublisher::unsubscribeTreeView\<close>, which lives outside the sources at
  hand.  The view leaves the subscribers of the publisher; unsubscribing a view that is
  not registered changes nothing (unsubscribing is idempotent-safe).  The publisher
  member of the view is left alone: the move constructor reads it after the call.
\<close>

definition unsubscribeTreeView :: "world \<Rightarrow> publisher_ref \<Rightarrow> view_ref \<Rightarrow> world" where
  "unsubscribeTreeView w p view =
     w\<lparr>subscribed := (subscribed w)(p := removeAll view (subscribed w p)),
       calls := calls w @ [Unsubscribe p view]\<rparr>"

text \<open>
  \<^verbatim>\<open>operator=(const TreeView& other)\<close>: the publisher pointer, the tree and the
  cross edges are assigned; the signal is not.
\<close>

definition copy_assign :: "world \<Rightarrow> view_ref \<Rightarrow> view_ref \<Rightarrow> error + world" where
  "copy_assign w this other =
     (case (views w this, views w other) of
        (Some tv, Some ov) \<Rightarrow>
          Inr (w\<lparr>views := (views w)(this \<mapsto>
                 tv\<lparr>publisher := publisher ov, tree := tree ov, crossEdges := crossEdges ov\<rparr>)\<rparr>)
      | _ \<Rightarrow> Inl InvalidDescriptor)"

text \<open>
  \<^verbatim>\<open>TreeView(const TreeView& other)\<close>: the members are default-initialised at the
  new address \<open>this\<close>, then \<^verbatim>\<open>*this = other\<close>.
\<close>

definition copy_construct :: "world \<Rightarrow> view_ref \<Rightarrow> view_ref \<Rightarrow> error + world" where
  "copy_construct w this other =
     (if views w this = None
      then copy_assign (w\<lparr>views := (views w)(this \<mapsto> TreeView_default)\<rparr>) this other
      else Inl InvalidDescriptor)"

text \<open>
  \<^verbatim>\<open>TreeView(TreeView&& other)\<close>: the tree and the cross edges move to the new
  object (the moved-from containers are left empty); when the other view has a publisher,
  the other view is unsubscribed, the new one subscribed, and the publisher of the other
  view set to null; last, the signals are swapped.
\<close>

definition move_construct ::
  "bool \<Rightarrow> world \<Rightarrow> view_ref \<Rightarrow> view_ref \<Rightarrow> error + world" where
  "move_construct ndebug w this other =
     (case views w other of
        None \<Rightarrow> Inl InvalidDescriptor
      | Some ov \<Rightarrow>
          if views w this \<noteq> None then Inl InvalidDescriptor
          else
            (let w0 = w\<lparr>views := (views w)
                        (this \<mapsto> TreeView_default\<lparr>tree := tree ov, crossEdges := crossEdges ov\<rparr>,
                         other \<mapsto> ov\<lparr>tree := Map.empty, crossEdges := []\<rparr>)\<rparr>;
                 swap_signals = (\<lambda>w3.
                   case (views w3 this, views w3 other) of
                     (Some tv, Some ov3) \<Rightarrow>
                       Inr (w3\<lparr>views := (views w3)
                              (this \<mapsto> tv\<lparr>treeUpdated := treeUpdated ov3\<rparr>,
                               other \<mapsto> ov3\<lparr>treeUpdated := treeUpdated tv\<rparr>)\<rparr>)
                   | _ \<Rightarrow> Inl InvalidDescriptor)
             in case publisher ov of
                  Some p \<Rightarrow>
                    (let w1 = unsubscribeTreeView w0 p other
                     in and_then (subscribeTreeView ndebug w1 p this) (\<lambda>w2.
                          case views w2 other of
                            None \<Rightarrow> Inl InvalidDescriptor
                          | Some ov2 \<Rightarrow>
                              swap_signals (w2\<lparr>views := (views w2)(other \<mapsto> ov2\<lparr>publisher := None\<rparr>)\<rparr>)))
                | None \<Rightarrow> swap_signals w0))"

text \<open>
  \<^verbatim>\<open>~TreeView()\<close>: a view whose publisher is not null unsubscribes itself and
  nulls the pointer; then the object is gone.
\<close>

definition destroy :: "world \<Rightarrow> view_ref \<Rightarrow> error + world" where
  "destroy w this =
     (case views w this of
        None \<Rightarrow> Inl InvalidDescriptor
      | Some tv \<Rightarrow>
          (let w1 = (case publisher tv of
                       Some p \<Rightarrow>
                         (let w' = unsubscribeTreeView w p this
                          in w'\<lparr>views := (views w')(this \<mapsto> tv\<lparr>publisher := None\<rparr>)\<rparr>)
                     | None \<Rightarrow> w)
           in Inr (w1\<lparr>views := (views w1)(this := None)\<rparr>)))"

text \<open>
  The state in which the pointers of the views and the registrations of the publishers
  agree: a view is registered with a publisher exactly when it is live and its publisher
  pointer is that publisher.
\<close>

definition consistent :: "world \<Rightarrow> bool" where
  "consistent w =
     (\<forall>p v. (v \<in> set (subscribed w p)) = (\<exists>tv. views w v = Some tv \<and> publisher tv = Some p))"

section \<open>Predicates and example states used in the statements\<close>

text \<open>Every stored edge joins two live vertices: no edge has a missing endpoint.\<close>

definition edges_attached :: "'t LabeledTransformTree \<Rightarrow> bool" where
  "edges_attached g =
     (\<forall>e \<in> set (map fst (edge_list g)). has_vertex g (source e) \<and> has_vertex g (target e))"

text \<open>A vertex without incident edges: its in-degree plus its out-degree is zero.\<close>

definition isolated :: "'t LabeledTransformTree \<Rightarrow> vertex_descriptor \<Rightarrow> bool" where
  "isolated g v = (\<forall>e \<in> set (map fst (edge_list g)). source e \<noteq> v \<and> target e \<noteq> v)"

text \<open>
  What the destructive part is meant to leave of a graph \<open>g1\<close> from which the edge is
  gone: the endpoint \<open>s\<close> is dropped exactly when it is isolated in \<open>g1\<close>, and so is
  the endpoint \<open>t\<close>; every other vertex and every edge stays.
\<close>

definition after_destructive ::
  "'t LabeledTransformTree \<Rightarrow> vertex_descriptor \<Rightarrow> vertex_descriptor \<Rightarrow> 't LabeledTransformTree" where
  "after_destructive g1 s t =
     g1\<lparr>vertex_list :=
          filter (\<lambda>(u, p). \<not> (u = s \<and> isolated g1 s) \<and> \<not> (u = t \<and> isolated g1 t)) (vertex_list g1)\<rparr>"

definition endpoints :: "'t LabeledTransformTree \<Rightarrow> (vertex_descriptor \<times> vertex_descriptor) set" where
  "endpoints g = set (map (\<lambda>e. (source e, target e)) (map fst (edge_list g)))"

text \<open>
  The graph is exactly the two-edge path: three distinct frames labelled \<open>la\<close>,
  \<open>lb\<close>, \<open>lc\<close>, no other vertex, and edges from the first to the second and from
  the second to the third only.
\<close>

definition two_edge_path ::
  "'t LabeledTransformTree \<Rightarrow> VertexLabel \<Rightarrow> VertexLabel \<Rightarrow> VertexLabel \<Rightarrow> bool" where
  "two_edge_path g la lb lc =
     (case (label_map g la, label_map g lb, label_map g lc) of
        (Some a, Some b, Some c) \<Rightarrow>
          distinct [a, b, c] \<and>
          set (map fst (vertex_list g)) = {a, b, c} \<and>
          endpoints g = {(a, b), (b, c)}
      | _ \<Rightarrow> False)"

definition one_frame :: "nat LabeledTransformTree" where
  "one_frame =
     \<lparr>vertex_list = [(1, Frame_of_name ''a'')],
      edge_list = [],
      label_map = [''a'' \<mapsto> 1]\<rparr>"

definition two_frames :: "nat LabeledTransformTree" where
  "two_frames =
     \<lparr>vertex_list = [(1, Frame_of_name ''a''), (2, Frame_of_name ''b'')],
      edge_list = [],
      label_map = [''a'' \<mapsto> 1, ''b'' \<mapsto> 2]\<rparr>"

definition self_loop :: "nat LabeledTransformTree" where
  "self_loop =
     \<lparr>vertex_list = [(1, Frame_of_name ''a'')],
      edge_list = [((1, 1, 1), 7)],
      label_map = [''a'' \<mapsto> 1]\<rparr>"

definition path_ABC :: "nat LabeledTransformTree" where
  "path_ABC =
     \<lparr>vertex_list = [(1, Frame_of_name ''A''), (2, Frame_of_name ''B''), (3, Frame_of_name ''C'')],
      edge_list = [((1, 2, 1), 10), ((2, 3, 2), 20)],
      label_map = [''A'' \<mapsto> 1, ''B'' \<mapsto> 2, ''C'' \<mapsto> 3]\<rparr>"

definition small_view :: TreeView where
  "small_view =
     TreeView_default
       \<lparr>tree := [1 \<mapsto> \<lparr>parent = null_vertex, children = {2}\<rparr>,
                 2 \<mapsto> \<lparr>parent = 1, children = {}\<rparr>]\<rparr>"

definition one_subscribed :: world where
  "one_subscribed =
     \<lparr>views = [1 \<mapsto> TreeView_default\<lparr>publisher := Some 7, crossEdges := [(1, 2, 1)]\<rparr>],
      subscribed = (\<lambda>p. [])(7 := [1]),
      calls = [Subscribe 7 1]\<rparr>"

definition assigned_over :: world where
  "assigned_over =
     \<lparr>views = [1 \<mapsto> TreeView_default\<lparr>publisher := Some 7, crossEdges := [(1, 2, 1)]\<rparr>,
               2 \<mapsto> TreeView_default],
      subscribed = (\<lambda>p. [])(7 := [1]),
      calls = [Subscribe 7 1]\<rparr>"

section \<open>Building a TreeView: the traversal\<close>

text \<open>
  The sources declare the data of a TreeView and say that it is generated by traversing
  the graph in breadth-first order from a root; the traversal itself lives outside the
  sources at hand.  Every definition of this section is therefore modelled from the
  design document (section 4.2), one examination of one edge at a time, so that the
  states the construction passes through can be spoken about.
\<close>

text \<open>
  Modelled from the spec: the state of the traversal, which is missing from the sources.
  \<open>view\<close> is the TreeView under construction; \<open>queue\<close> the FIFO queue of visited
  vertices still to be processed; \<open>current\<close> the vertex being processed and
  \<open>pending\<close> its incident edges not yet examined; \<open>reached_by\<close> gives, for every
  vertex but the root, the tree edge used to reach it from its parent.
\<close>

record bfs_state =
  view :: TreeView
  queue :: "vertex_descriptor list"
  current :: vertex_descriptor
  pending :: "edge_descriptor list"
  reached_by :: "vertex_descriptor \<rightharpoonup> edge_descriptor"

text \<open>
  Modelled from the spec: the incident edges of a vertex, missing from the sources.  All
  edges that start or end at the vertex ("both directions"), in the order in which the
  graph stores them (a fixed order: ascending address under the allocation above).
\<close>

definition incident_edges :: "'t LabeledTransformTree \<Rightarrow> vertex_descriptor \<Rightarrow> edge_descriptor list" where
  "incident_edges g u = filter (\<lambda>e. source e = u \<or> target e = u) (map fst (edge_list g))"

text \<open>
  Modelled from the spec: the neighbour an incident edge of \<open>u\<close> leads to, missing from
  the sources.
\<close>

definition other_end :: "edge_descriptor \<Rightarrow> vertex_descriptor \<Rightarrow> vertex_descriptor" where
  "other_end e u = (if source e = u then target e else source e)"

text \<open>
  Modelled from the spec: the marks of the traversal, missing from the sources.  A vertex
  is visited when it has a relation in the tree; it is finished when it is visited,
  waits no longer in the queue and is not the vertex being processed: all its incident
  edges have been examined.
\<close>

definition is_visited :: "bfs_state \<Rightarrow> vertex_descriptor \<Rightarrow> bool" where
  "is_visited st v = (tree (view st) v \<noteq> None)"

definition is_finished :: "bfs_state \<Rightarrow> vertex_descriptor \<Rightarrow> bool" where
  "is_finished st v = (is_visited st v \<and> v \<notin> set (queue st) \<and> v \<noteq> current st)"

text \<open>
  Modelled from the spec: step 3 of the traversal, missing from the sources; the two
  endpoints of the edge are recorded as parent and child in the tree.
\<close>

definition add_child :: "VertexRelationMap \<Rightarrow> vertex_descriptor \<Rightarrow> vertex_descriptor \<Rightarrow> VertexRelationMap" where
  "add_child m u v =
     (let r = (case m u of Some r \<Rightarrow> r | None \<Rightarrow> \<lparr>parent = null_vertex, children = {}\<rparr>)
      in m(u \<mapsto> r\<lparr>children := insert v (children r)\<rparr>, v \<mapsto> \<lparr>parent = u, children = {}\<rparr>))"

text \<open>
  Modelled from the spec: the examination of one incident edge of the current vertex
  (steps 3 and 4), missing from the sources.  An edge that leads to an unvisited
  neighbour marks the neighbour visited, enters it into the tree as a child of the
  current vertex and enqueues it.  An edge that leads to a visited neighbour is recorded
  in \<open>crossEdges\<close>, unless it is the edge just used to reach the current vertex from its
  parent.

  The design document records such an edge at every examination.  The comment at the
  declaration of \<open>crossEdges\<close> in TreeView.hpp says that edges leading to a vertex that
  has already been visited are not included.  The flag \<open>again\<close> leaves this open: with
  it, the edge is recorded at every examination, as step 4 reads; without it, an edge
  that leads to a finished vertex is not recorded a second time.
\<close>

definition examine :: "bool \<Rightarrow> bfs_state \<Rightarrow> edge_descriptor \<Rightarrow> bfs_state" where
  "examine again st e =
     (let u = current st; v = other_end e u
      in if \<not> is_visited st v
         then st\<lparr>view := (view st)\<lparr>tree := add_child (tree (view st)) u v\<rparr>,
                 queue := queue st @ [v],
                 reached_by := (reached_by st)(v \<mapsto> e)\<rparr>
         else if reached_by st u = Some e then st
         else if \<not> again \<and> is_finished st v then st
         else st\<lparr>view := (view st)\<lparr>crossEdges := crossEdges (view st) @ [e]\<rparr>\<rparr>)"

text \<open>
  Modelled from the spec: one step of the traversal (step 2), missing from the sources.
  The next pending edge of the current vertex is examined; when none is left, the next
  vertex is taken from the front of the queue; when the queue is empty too, the
  traversal is complete.
\<close>

definition step :: "'t LabeledTransformTree \<Rightarrow> bool \<Rightarrow> bfs_state \<Rightarrow> bfs_state" where
  "step g again st =
     (case pending st of
        e # es \<Rightarrow> examine again (st\<lparr>pending := es\<rparr>) e
      | [] \<Rightarrow>
          (case queue st of
             [] \<Rightarrow> st
           | u # q \<Rightarrow> st\<lparr>queue := q, current := u, pending := incident_edges g u\<rparr>))"

text \<open>
  Modelled from the spec: the initial state (step 1), missing from the sources.  The root
  has a relation without parent and is visited; it is the first vertex processed.
\<close>

definition start :: "'t LabeledTransformTree \<Rightarrow> vertex_descriptor \<Rightarrow> bfs_state" where
  "start g root =
     \<lparr>view = TreeView_default\<lparr>tree := [root \<mapsto> \<lparr>parent = null_vertex, children = {}\<rparr>]\<rparr>,
      queue = [], current = root, pending = incident_edges g root, reached_by = Map.empty\<rparr>"

text \<open>
  Modelled from the spec: the traversal loop, missing from the sources.  Steps are taken
  until no edge is pending and the queue is empty.
\<close>

function traverse :: "'t LabeledTransformTree \<Rightarrow> bool \<Rightarrow> bfs_state \<Rightarrow> bfs_state" where
  "traverse g again st =
     (if pending st = [] \<and> queue st = [] then st else traverse g again (step g again st))"
  by pat_completeness auto

text \<open>
  Modelled from the spec: the request for a TreeView, missing from the sources.  A root
  that is not in the graph fails with \<open>UnknownFrame\<close> (section 4.2 of the design
  document; its section 7 calls the same failure \<open>InvalidRoot\<close>).
\<close>

definition getTree :: "'t LabeledTransformTree \<Rightarrow> bool \<Rightarrow> vertex_descriptor \<Rightarrow> error + TreeView" where
  "getTree g again root =
     (if has_vertex g root then Inr (view (traverse g again (start g root))) else Inl UnknownFrame)"

subsection \<open>Notions used to reason about the traversal\<close>

definition visited :: "bfs_state \<Rightarrow> vertex_descriptor set" where
  "visited st = {v. is_visited st v}"

definition finished :: "bfs_state \<Rightarrow> vertex_descriptor set" where
  "finished st = {v. is_finished st v}"

definition ends :: "edge_descriptor set \<Rightarrow> vertex_descriptor set" where
  "ends E = (\<Union>e \<in> E. {source e, target e})"

text \<open>The measure of progress: endpoints of edges that are not visited yet.\<close>

definition unvisited_ends :: "'t LabeledTransformTree \<Rightarrow> bfs_state \<Rightarrow> vertex_descriptor set" where
  "unvisited_ends g st =
     ends (set (map fst (edge_list g)) \<union> set (pending st)) - visited st"

definition parent_of :: "bfs_state \<Rightarrow> vertex_descriptor \<Rightarrow> vertex_descriptor option" where
  "parent_of st w = map_option parent (tree (view st) w)"

definition joins :: "edge_descriptor \<Rightarrow> vertex_descriptor \<Rightarrow> vertex_descriptor \<Rightarrow> bool" where
  "joins e p w = ((source e = p \<and> target e = w) \<or> (source e = w \<and> target e = p))"

text \<open>An edge is accounted for: it is a cross edge or a tree edge.\<close>

definition recorded :: "bfs_state \<Rightarrow> edge_descriptor \<Rightarrow> bool" where
  "recorded st e = (e \<in> set (crossEdges (view st)) \<or> e \<in> ran (reached_by st))"

text \<open>What holds in every state of a traversal.\<close>

definition bfs_inv :: "'t LabeledTransformTree \<Rightarrow> bfs_state \<Rightarrow> bool" where
  "bfs_inv g st =
     (current st \<in> visited st \<and>
      set (queue st) \<subseteq> visited st \<and>
      distinct (queue st) \<and> current st \<notin> set (queue st) \<and>
      distinct (pending st) \<and>
      set (pending st) \<subseteq> set (incident_edges g (current st)) \<and>
      (\<forall>w e. reached_by st w = Some e \<longrightarrow>
         (\<exists>p. parent_of st w = Some p \<and> p \<in> visited st \<and> p \<notin> set (queue st) \<and> p \<noteq> w \<and> joins e p w)) \<and>
      (\<forall>w e. reached_by st w = Some e \<and> parent_of st w = Some (current st) \<longrightarrow> e \<notin> set (pending st)) \<and>
      (\<forall>e \<in> set (crossEdges (view st)). source e \<in> visited st \<and> target e \<in> visited st) \<and>
      (\<forall>e \<in> set (crossEdges (view st)). e \<notin> ran (reached_by st)) \<and>
      (\<forall>x \<in> finished st. \<forall>e \<in> set (incident_edges g x). recorded st e) \<and>
      (\<forall>e \<in> set (incident_edges g (current st)). e \<notin> set (pending st) \<longrightarrow> recorded st e))"

text \<open>
  The cycle from \<open>A\<close> over \<open>B\<close> and \<open>C\<close> back to \<open>A\<close>, and the state of its
  traversal from \<open>A\<close> in which \<open>C\<close> is being processed and the edge from \<open>B\<close> to
  \<open>C\<close> is about to be examined from the side of \<open>C\<close>.
\<close>

definition cycle_ABC :: "nat LabeledTransformTree" where
  "cycle_ABC =
     \<lparr>vertex_list = [(1, Frame_of_name ''A''), (2, Frame_of_name ''B''), (3, Frame_of_name ''C'')],
      edge_list = [((1, 2, 1), 10), ((2, 3, 2), 20), ((3, 1, 3), 30)],
      label_map = [''A'' \<mapsto> 1, ''B'' \<mapsto> 2, ''C'' \<mapsto> 3]\<rparr>"

definition cycle_state :: bfs_state where
  "cycle_state =
     \<lparr>view = TreeView_default
         \<lparr>tree := [1 \<mapsto> \<lparr>parent = null_vertex, children = {2, 3}\<rparr>,
                   2 \<mapsto> \<lparr>parent = 1, children = {}\<rparr>,
                   3 \<mapsto> \<lparr>parent = 1, children = {}\<rparr>],
          crossEdges := [(2, 3, 2)]\<rparr>,
      queue = [], current = 3, pending = [(2, 3, 2), (3, 1, 3)],
      reached_by = [2 \<mapsto> (1, 2, 1), 3 \<mapsto> (3, 1, 3)]\<rparr>"

section \<open>Basic facts\<close>

lemma and_then_Inr [simp]: "and_then (Inr x) f = f x"
  by (simp add: and_then_def)

lemma and_then_Inl [simp]: "and_then (Inl e) f = Inl e"
  by (simp add: and_then_def)




lemma fst_comp_put [simp]: "fst \<circ> (\<lambda>(e', t). if e' = e then (e', tf) else (e', t)) = fst"
  by (auto simp: fun_eq_iff)

lemma map_of_put:
  "map_of (map (\<lambda>(e', t). if e' = e then (e', tf) else (e', t)) xs) e =
     (if e \<in> set (map fst xs) then Some tf else None)"
  by (induction xs) auto

lemma getTransform_put:
  "has_edge g e \<Longrightarrow>
   getTransform (g\<lparr>edge_list := map (\<lambda>(e', t). if e' = e then (e', tf) else (e', t)) (edge_list g)\<rparr>) e = Inr tf"
  by (simp add: getTransform_def boost_get_def map_of_put has_edge_def)

lemma has_vertex_edge_list [simp]: "has_vertex (g\<lparr>edge_list := es\<rparr>) v = has_vertex g v"
  by (simp add: has_vertex_def)

lemma has_vertex_filter:
  "has_vertex (g\<lparr>vertex_list := filter (\<lambda>(u, p). u \<noteq> x) (vertex_list g)\<rparr>) v = (has_vertex g v \<and> v \<noteq> x)"
  by (force simp: has_vertex_def)

lemma vertices_filter:
  "set (map fst (filter (\<lambda>(u, p). u \<noteq> x) vs)) = set (map fst vs) - {x}"
  by (induction vs) auto

lemma filter_nil_vertices:
  assumes "\<forall>u \<in> set (map fst vs). \<not> P u"
  shows "filter (\<lambda>(u, p). P u) vs = []"
  using assms by (induction vs) auto

section \<open>Adding frames and transforms\<close>

lemma add_edge_existing:
  assumes "label_map g a = Some va" "label_map g b = Some vb"
    and "has_vertex g va" "has_vertex g vb"
    and "edges_between g va vb = e # es"
  shows "add_edge g a b tf =
           Inr (g\<lparr>edge_list := map (\<lambda>(e', t). if e' = e then (e', tf) else (e', t)) (edge_list g)\<rparr>, e, True)"
proof -
  have "e \<in> set (edges_between g va vb)" using assms(5) by simp
  then have "has_edge g e" by (simp add: edges_between_def has_edge_def)
  then show ?thesis
    using assms by (simp add: add_edge_def edge_by_label_def vertex_by_label_def boost_edge_def boost_put_def)
qed

lemma add_edge_new:
  assumes "label_map g a = Some va" "label_map g b = Some vb"
    and "has_vertex g va" "has_vertex g vb"
    and "edges_between g va vb = []"
  shows "add_edge g a b tf =
           Inr (g\<lparr>edge_list := edge_list g @
                    [((va, vb, fresh_address (map (\<lambda>(e, t). edge_address e) (edge_list g))), tf)]\<rparr>,
                (va, vb, fresh_address (map (\<lambda>(e, t). edge_address e) (edge_list g))), True)"
  using assms
  by (simp add: add_edge_def edge_by_label_def vertex_by_label_def boost_edge_def
      add_edge_by_label_def boost_add_edge_def Let_def)

lemma add_edge_desc_labels:
  assumes "label_map g a = Some va" and "label_map g b = Some vb"
  shows "add_edge_desc g va vb tf = add_edge g a b tf"
proof -
  have h1: "add_edge_by_label g a b tf = boost_add_edge g va vb tf"
    using assms by (simp add: add_edge_by_label_def vertex_by_label_def)
  have h2: "edge_by_label g a b = boost_edge g va vb"
    using assms by (simp add: edge_by_label_def vertex_by_label_def)
  show ?thesis
    unfolding add_edge_desc_def add_edge_def h1 h2 by (rule refl)
qed

text \<open>
  C1.  Let the frames \<open>a\<close> and \<open>b\<close> exist, with at most one edge stored for the
  ordered pair so far.  Then \<open>add_edge a b t1\<close> followed by \<open>add_edge a b t2\<close>
  succeeds both times and returns the same edge descriptor, by labels and by vertex
  descriptors alike; afterwards exactly one edge is stored for the ordered pair, and
  \<open>getTransform\<close> on it returns \<open>t2\<close>: the second call replaces the payload and
  adds no parallel edge.
\<close>

theorem add_edge_twice_replaces:
  assumes "label_map g a = Some va" and "label_map g b = Some vb"
    and "has_vertex g va" and "has_vertex g vb"
    and "length (edges_between g va vb) \<le> 1"
  shows "\<exists>g1 e f1 g2 f2.
           add_edge g a b t1 = Inr (g1, e, f1) \<and>
           add_edge_desc g va vb t1 = Inr (g1, e, f1) \<and>
           add_edge g1 a b t2 = Inr (g2, e, f2) \<and>
           add_edge_desc g1 va vb t2 = Inr (g2, e, f2) \<and>
           edges_between g2 va vb = [e] \<and>
           num_edges g2 = num_edges g1 \<and>
           getTransform g2 e = Inr t2"
proof (cases "edges_between g va vb")
  case Nil
  define e where "e = (va, vb, fresh_address (map (\<lambda>(e, t). edge_address e) (edge_list g)))"
  define g1 where "g1 = g\<lparr>edge_list := edge_list g @ [(e, t1)]\<rparr>"
  define g2 where "g2 = g1\<lparr>edge_list := map (\<lambda>(e', t). if e' = e then (e', t2) else (e', t)) (edge_list g1)\<rparr>"
  have first: "add_edge g a b t1 = Inr (g1, e, True)"
    using add_edge_new [OF assms(1-4) Nil] by (simp add: g1_def e_def)
  have between1: "edges_between g1 va vb = [e]"
    using Nil by (simp add: edges_between_def g1_def e_def source_def target_def)
  have second: "add_edge g1 a b t2 = Inr (g2, e, True)"
    using add_edge_existing [of g1 a va b vb e "[]" t2] assms(1-4) between1
    by (simp add: g1_def g2_def has_vertex_def)
  have "add_edge_desc g va vb t1 = Inr (g1, e, True)"
    using first add_edge_desc_labels [OF assms(1,2)] by simp
  moreover have "add_edge_desc g1 va vb t2 = Inr (g2, e, True)"
    using second add_edge_desc_labels [of g1 a va b vb] assms(1,2) by (simp add: g1_def)
  moreover have "edges_between g2 va vb = [e]"
    using between1 by (simp add: edges_between_def g2_def)
  moreover have "num_edges g2 = num_edges g1"
    by (simp add: num_edges_def g2_def)
  moreover have "getTransform g2 e = Inr t2"
    unfolding g2_def by (rule getTransform_put) (simp add: has_edge_def g1_def)
  ultimately show ?thesis using first second by blast
next
  case (Cons e es)
  then have es: "es = []" using assms(5) by simp
  define g1 where "g1 = g\<lparr>edge_list := map (\<lambda>(e', t). if e' = e then (e', t1) else (e', t)) (edge_list g)\<rparr>"
  define g2 where "g2 = g1\<lparr>edge_list := map (\<lambda>(e', t). if e' = e then (e', t2) else (e', t)) (edge_list g1)\<rparr>"
  have first: "add_edge g a b t1 = Inr (g1, e, True)"
    using add_edge_existing [OF assms(1-4) Cons] by (simp add: g1_def)
  have between1: "edges_between g1 va vb = [e]"
    using Cons es by (simp add: edges_between_def g1_def)
  have second: "add_edge g1 a b t2 = Inr (g2, e, True)"
    using add_edge_existing [of g1 a va b vb e "[]" t2] assms(1-4) between1
    by (simp add: g1_def g2_def has_vertex_def)
  have "add_edge_desc g va vb t1 = Inr (g1, e, True)"
    using first add_edge_desc_labels [OF assms(1,2)] by simp
  moreover have "add_edge_desc g1 va vb t2 = Inr (g2, e, True)"
    using second add_edge_desc_labels [of g1 a va b vb] assms(1,2) by (simp add: g1_def)
  moreover have "edges_between g2 va vb = [e]"
    using between1 by (simp add: edges_between_def g2_def)
  moreover have "num_edges g2 = num_edges g1"
    by (simp add: num_edges_def g2_def)
  moreover have "e \<in> set (map fst (edge_list g))"
  proof -
    have "e \<in> set (edges_between g va vb)" using Cons by simp
    then show ?thesis by (simp add: edges_between_def)
  qed
  then have "getTransform g2 e = Inr t2"
    unfolding g2_def by (intro getTransform_put) (simp add: has_edge_def g1_def)
  ultimately show ?thesis using first second by blast
qed

theorem add_edge_twice_replaces_witness:
  "label_map two_frames ''a'' = Some 1 \<and> label_map two_frames ''b'' = Some 2 \<and>
   has_vertex two_frames 1 \<and> has_vertex two_frames 2 \<and>
   length (edges_between two_frames 1 2) \<le> 1 \<and>
   (\<exists>g1 e f1 g2 f2.
      add_edge two_frames ''a'' ''b'' 5 = Inr (g1, e, f1) \<and>
      add_edge_desc two_frames 1 2 5 = Inr (g1, e, f1) \<and>
      add_edge g1 ''a'' ''b'' 9 = Inr (g2, e, f2) \<and>
      add_edge_desc g1 1 2 9 = Inr (g2, e, f2) \<and>
      edges_between g2 1 2 = [e] \<and>
      num_edges g2 = num_edges g1 \<and>
      getTransform g2 e = Inr 9)"
proof -
  have h: "label_map two_frames ''a'' = Some 1" "label_map two_frames ''b'' = Some 2"
    "has_vertex two_frames 1" "has_vertex two_frames 2"
    "length (edges_between two_frames 1 2) \<le> 1"
    by (simp_all add: two_frames_def has_vertex_def edges_between_def)
  show ?thesis
    using h add_edge_twice_replaces [OF h, of 5 9] by simp
qed




text \<open>
  The two cases above do not cover a name whose frame has been removed.  No removal path
  erases the label (\<open>remove_vertex\<close>, the destructive \<open>remove_edge\<close> and \<open>clear\<close> all
  act on the underlying graph), so the name stays a key of the label map while its
  vertex is gone, and adding the name again returns the descriptor of the removed vertex
  without creating a vertex.
\<close>

lemma add_vertex_stale_label:
  assumes "label_map g n = Some v" and "\<not> has_vertex g v"
  shows "add_vertex g n = Inr (g, v)"
  using assms by (simp add: add_vertex_def labeled_add_vertex_def)

lemma add_vertex_after_removal:
  "remove_vertex one_frame ''a'' = Inr (one_frame\<lparr>vertex_list := []\<rparr>) \<and>
   remove_vertex_desc one_frame 1 = Inr (one_frame\<lparr>vertex_list := []\<rparr>) \<and>
   clear one_frame = one_frame\<lparr>vertex_list := []\<rparr> \<and>
   \<not> has_vertex (one_frame\<lparr>vertex_list := []\<rparr>) 1 \<and>
   add_vertex (one_frame\<lparr>vertex_list := []\<rparr>) ''a'' = Inr (one_frame\<lparr>vertex_list := []\<rparr>, 1)"
  by (simp add: remove_vertex_def remove_vertex_desc_def clear_vertex_by_label_def
      labeled_remove_vertex_def vertex_by_label_def boost_clear_vertex_def
      boost_remove_vertex_def clear_def add_vertex_def labeled_add_vertex_def
      one_frame_def has_vertex_def and_then_def)

section \<open>Removing frames\<close>

lemma remove_vertex_desc_result:
  assumes "has_vertex g vd"
  shows "remove_vertex_desc g vd =
           Inr (g\<lparr>edge_list := filter (\<lambda>(e, t). source e \<noteq> vd \<and> target e \<noteq> vd) (edge_list g),
                  vertex_list := filter (\<lambda>(u, p). u \<noteq> vd) (vertex_list g)\<rparr>)"
  using assms
  by (simp add: remove_vertex_desc_def boost_clear_vertex_def boost_remove_vertex_def has_vertex_def)

lemma remove_vertex_result:
  assumes "label_map g l = Some vd" and "has_vertex g vd"
  shows "remove_vertex g l = remove_vertex_desc g vd"
  using assms
  by (simp add: remove_vertex_def remove_vertex_desc_def clear_vertex_by_label_def
      labeled_remove_vertex_def vertex_by_label_def boost_clear_vertex_def has_vertex_def)

text \<open>
  C7.  In a graph without dangling edges, removing a live vertex, by its descriptor or by
  a label that denotes it, succeeds, and both ways give the same graph: the vertex is
  gone, no remaining edge starts or ends at it, and again every remaining edge joins two
  live vertices.
\<close>

theorem remove_vertex_clears_edges:
  assumes "edges_attached g" and "has_vertex g vd"
  shows "\<exists>g'. remove_vertex_desc g vd = Inr g' \<and>
           (\<forall>l. label_map g l = Some vd \<longrightarrow> remove_vertex g l = Inr g') \<and>
           \<not> has_vertex g' vd \<and>
           (\<forall>e \<in> set (map fst (edge_list g')). source e \<noteq> vd \<and> target e \<noteq> vd) \<and>
           edges_attached g'"
proof -
  define g' where "g' = g\<lparr>edge_list := filter (\<lambda>(e, t). source e \<noteq> vd \<and> target e \<noteq> vd) (edge_list g),
                  vertex_list := filter (\<lambda>(u, p). u \<noteq> vd) (vertex_list g)\<rparr>"
  have r: "remove_vertex_desc g vd = Inr g'"
    using remove_vertex_desc_result [OF assms(2)] by (simp add: g'_def)
  have l: "\<forall>l. label_map g l = Some vd \<longrightarrow> remove_vertex g l = Inr g'"
    using remove_vertex_result assms(2) r by metis
  have gone: "\<not> has_vertex g' vd"
    by (auto simp: has_vertex_def g'_def)
  have noinc: "\<forall>e \<in> set (map fst (edge_list g')). source e \<noteq> vd \<and> target e \<noteq> vd"
    by (auto simp: g'_def)
  have keep: "has_vertex g' u" if "has_vertex g u" "u \<noteq> vd" for u
    using that by (force simp: has_vertex_def g'_def)
  have "edges_attached g'"
    unfolding edges_attached_def
  proof
    fix e assume e: "e \<in> set (map fst (edge_list g'))"
    then have "e \<in> set (map fst (edge_list g))" by (auto simp: g'_def)
    then have "has_vertex g (source e) \<and> has_vertex g (target e)"
      using assms(1) unfolding edges_attached_def by blast
    moreover have "source e \<noteq> vd \<and> target e \<noteq> vd" using noinc e by blast
    ultimately show "has_vertex g' (source e) \<and> has_vertex g' (target e)"
      using keep by blast
  qed
  then show ?thesis using r l gone noinc by blast
qed

theorem remove_vertex_clears_edges_witness:
  "edges_attached path_ABC \<and> has_vertex path_ABC 2 \<and> label_map path_ABC ''B'' = Some 2 \<and>
   (\<exists>g'. remove_vertex_desc path_ABC 2 = Inr g' \<and> remove_vertex path_ABC ''B'' = Inr g' \<and>
      \<not> has_vertex g' 2 \<and> edges_attached g')"
proof -
  have h: "edges_attached path_ABC" "has_vertex path_ABC 2"
    by (simp_all add: edges_attached_def path_ABC_def has_vertex_def source_def target_def)
  have l: "label_map path_ABC ''B'' = Some 2"
    by (simp add: path_ABC_def)
  show ?thesis
    using h l remove_vertex_clears_edges [OF h] by blast
qed

section \<open>Removing transforms\<close>

lemma degree_zero_iff:
  "length (filter (\<lambda>(e, t). target e = v) (edge_list g)) +
     length (filter (\<lambda>(e, t). source e = v) (edge_list g)) = 0 \<longleftrightarrow> isolated g v"
  by (auto simp: isolated_def filter_empty_conv)

lemma remove_if_isolated_live:
  assumes "has_vertex g v"
  shows "remove_if_isolated g v =
           Inr (if isolated g v then g\<lparr>vertex_list := filter (\<lambda>(u, p). u \<noteq> v) (vertex_list g)\<rparr> else g)"
  using assms degree_zero_iff [of v g]
  by (simp add: remove_if_isolated_def in_degree_def out_degree_def boost_remove_vertex_def)

lemma remove_if_isolated_dangling:
  "\<not> has_vertex g v \<Longrightarrow> remove_if_isolated g v = Inl InvalidDescriptor"
  by (simp add: remove_if_isolated_def in_degree_def)

lemma isolated_vertex_list [simp]: "isolated (g\<lparr>vertex_list := vs\<rparr>) v = isolated g v"
  by (simp add: isolated_def)

lemma destructive_part:
  assumes "has_vertex g1 s" and "has_vertex g1 t" and "s \<noteq> t"
  shows "and_then (remove_if_isolated g1 s) (\<lambda>g2. remove_if_isolated g2 t) = Inr (after_destructive g1 s t)"
proof -
  have t2: "has_vertex (g1\<lparr>vertex_list := filter (\<lambda>(u, p). u \<noteq> s) (vertex_list g1)\<rparr>) t"
    using assms by (simp add: has_vertex_filter)
  show ?thesis
    using assms t2
    by (cases "isolated g1 s"; cases "isolated g1 t")
      (simp_all add: remove_if_isolated_live after_destructive_def case_prod_unfold)
qed

text \<open>
  Destructive removal of an edge between two different live vertices does what C3 says:
  the edge goes, then the source and after it the target are dropped exactly when they
  have no incident edge left.
\<close>

lemma remove_edge_vertices_destructive:
  assumes "has_vertex g u" and "has_vertex g v" and "u \<noteq> v"
  shows "remove_edge_vertices g u v True =
           Inr (after_destructive
                  (g\<lparr>edge_list := filter (\<lambda>(e, t). \<not> (source e = u \<and> target e = v)) (edge_list g)\<rparr>) u v)"
  using assms by (simp add: remove_edge_vertices_def boost_remove_edge_def destructive_part)

lemma remove_edge_desc_destructive:
  assumes "has_edge g ed" and "has_vertex g (source ed)" and "has_vertex g (target ed)"
    and "source ed \<noteq> target ed"
  shows "remove_edge_desc g ed True =
           Inr (after_destructive
                  (g\<lparr>edge_list := filter (\<lambda>(e', t). e' \<noteq> ed) (edge_list g)\<rparr>) (source ed) (target ed))"
  using assms by (simp add: remove_edge_desc_def boost_remove_edge_desc_def destructive_part Let_def)

lemma remove_edge_labels:
  assumes "label_map g la = Some a" and "label_map g lb = Some b"
  shows "remove_edge g la lb d = remove_edge_vertices g a b d"
  using assms by (simp add: remove_edge_def vertex_by_label_def)

lemma self_loop_built:
  "and_then (add_vertex empty_tree ''a'') (\<lambda>(g, v). add_edge g ''a'' ''a'' (7::nat)) =
     Inr (self_loop, (1, 1, 1), True)"
  by (simp add: add_vertex_def labeled_add_vertex_def boost_add_vertex_def empty_tree_def
      fresh_address_def self_loop_def Let_def add_edge_def edge_by_label_def vertex_by_label_def
      boost_edge_def has_vertex_def edges_between_def add_edge_by_label_def boost_add_edge_def)

text \<open>
  C3 at an edge from a frame to itself.  In the graph made by \<open>add_vertex a\<close> and
  \<open>add_edge a a\<close>, the frame is isolated once the edge is gone.  Every overload of the
  destructive removal removes it at the check of the source and then asks for the degree
  of the target, the same vertex, which is no longer in the graph: the call does not come
  back with the graph C3 describes.
\<close>

theorem remove_edge_self_loop_undefined:
  "has_edge self_loop (1, 1, 1) \<and> has_vertex self_loop 1 \<and>
   remove_edge_desc self_loop (1, 1, 1) True = Inl InvalidDescriptor \<and>
   remove_edge_vertices self_loop 1 1 True = Inl InvalidDescriptor \<and>
   remove_edge self_loop ''a'' ''a'' True = Inl InvalidDescriptor"
  by (simp add: remove_edge_desc_def boost_remove_edge_desc_def has_edge_def self_loop_def
      source_def target_def remove_if_isolated_def in_degree_def out_degree_def has_vertex_def
      boost_remove_vertex_def Let_def remove_edge_def remove_edge_vertices_def vertex_by_label_def
      boost_remove_edge_def)

text \<open>
  C4, as the code has it.  When both named endpoints are live and no edge leads from the
  first to the second, the removal that is not destructive reports no failure and
  returns the graph unchanged.
\<close>

theorem remove_edge_missing_edge_noop:
  assumes "label_map g a = Some va" and "label_map g b = Some vb"
    and "has_vertex g va" and "has_vertex g vb"
    and "edges_between g va vb = []"
  shows "remove_edge g a b False = Inr g"
proof -
  have "\<forall>x \<in> set (edge_list g). \<not> (source (fst x) = va \<and> target (fst x) = vb)"
    using assms(5) by (auto simp: edges_between_def filter_empty_conv)
  then have "filter (\<lambda>(e, t). \<not> (source e = va \<and> target e = vb)) (edge_list g) = edge_list g"
    by (auto simp: filter_id_conv)
  then show ?thesis
    using assms(1-4)
    by (simp add: remove_edge_def remove_edge_vertices_def vertex_by_label_def boost_remove_edge_def)
qed

theorem remove_edge_missing_edge_noop_witness:
  "label_map two_frames ''a'' = Some 1 \<and> label_map two_frames ''b'' = Some 2 \<and>
   has_vertex two_frames 1 \<and> has_vertex two_frames 2 \<and> edges_between two_frames 1 2 = [] \<and>
   remove_edge two_frames ''a'' ''b'' False = Inr two_frames"
proof -
  have h: "label_map two_frames ''a'' = Some 1" "label_map two_frames ''b'' = Some 2"
    "has_vertex two_frames 1" "has_vertex two_frames 2" "edges_between two_frames 1 2 = []"
    by (simp_all add: two_frames_def has_vertex_def edges_between_def)
  show ?thesis
    using h remove_edge_missing_edge_noop [OF h] by simp
qed

text \<open>
  C4 as stated fails: with two frames and no edge between them, the removal does not fail
  with \<open>UnknownEdge\<close>.  Without the destructive flag it succeeds and changes nothing;
  with the flag it succeeds and removes both frames, which are isolated.
\<close>

theorem remove_edge_missing_edge_counterexample:
  "edges_between two_frames 1 2 = [] \<and>
   remove_edge two_frames ''a'' ''b'' False = Inr two_frames \<and>
   remove_edge two_frames ''a'' ''b'' False \<noteq> Inl UnknownEdge \<and>
   remove_edge two_frames ''a'' ''b'' True = Inr (two_frames\<lparr>vertex_list := []\<rparr>)"
  by (simp add: remove_edge_def remove_edge_vertices_def vertex_by_label_def boost_remove_edge_def
      has_vertex_def two_frames_def remove_if_isolated_def in_degree_def out_degree_def
      boost_remove_vertex_def Let_def edges_between_def)

subsection \<open>The two-edge path\<close>

lemma isolated_endpoints: "isolated g v \<longleftrightarrow> (\<forall>(s, t) \<in> endpoints g. s \<noteq> v \<and> t \<noteq> v)"
  by (auto simp: isolated_def endpoints_def)

lemma endpoints_filter_pair:
  "endpoints (g\<lparr>edge_list := filter (\<lambda>(e, t). \<not> (source e = u \<and> target e = v)) (edge_list g)\<rparr>) =
     endpoints g - {(u, v)}"
  by (auto simp: endpoints_def)

lemma endpoints_empty: "endpoints g = {} \<longleftrightarrow> edge_list g = []"
  by (simp add: endpoints_def)

lemma endpoints_vertex_list [simp]: "endpoints (g\<lparr>vertex_list := vs\<rparr>) = endpoints g"
  by (simp add: endpoints_def)

text \<open>
  C8.  On a graph that is exactly the path from \<open>la\<close> over \<open>lb\<close> to \<open>lc\<close>, the
  destructive removal of the first edge followed by that of the second succeeds, and so
  do the two removals in the other order; both orders end in the same graph, which has no
  vertex and no edge.
\<close>

theorem destructive_path_removal:
  assumes "two_edge_path g la lb lc"
  shows "\<exists>g'. and_then (remove_edge g la lb True) (\<lambda>g1. remove_edge g1 lb lc True) = Inr g' \<and>
               and_then (remove_edge g lb lc True) (\<lambda>g1. remove_edge g1 la lb True) = Inr g' \<and>
               vertex_list g' = [] \<and> edge_list g' = [] \<and>
               num_vertices g' = 0 \<and> num_edges g' = 0"
proof -
  from assms obtain a b c where
    la: "label_map g la = Some a" and lb: "label_map g lb = Some b" and lc: "label_map g lc = Some c"
    and d: "a \<noteq> b" "a \<noteq> c" "b \<noteq> c"
    and vs: "set (map fst (vertex_list g)) = {a, b, c}"
    and es: "endpoints g = {(a, b), (b, c)}"
    by (auto simp: two_edge_path_def split: option.splits)
  have va: "has_vertex g a" and vb: "has_vertex g b" and vc: "has_vertex g c"
    using vs by (simp_all add: has_vertex_def)
  define final where "final = g\<lparr>edge_list := [], vertex_list := []\<rparr>"

  define e1 where "e1 = g\<lparr>edge_list := filter (\<lambda>(e, t). \<not> (source e = a \<and> target e = b)) (edge_list g)\<rparr>"
  define g1 where "g1 = after_destructive e1 a b"
  have ep1: "endpoints e1 = {(b, c)}"
    using es d unfolding e1_def endpoints_filter_pair by auto
  have iso1: "isolated e1 a" "\<not> isolated e1 b"
    using ep1 d by (auto simp: isolated_endpoints)
  have g1_eq: "g1 = e1\<lparr>vertex_list := filter (\<lambda>(u, p). u \<noteq> a) (vertex_list e1)\<rparr>"
    using iso1 by (simp add: g1_def after_destructive_def case_prod_unfold)
  have step1: "remove_edge g la lb True = Inr g1"
    using remove_edge_vertices_destructive [OF va vb d(1)] la lb
    by (simp add: remove_edge_labels g1_def e1_def)
  have l1: "label_map g1 lb = Some b" "label_map g1 lc = Some c"
    using lb lc by (simp_all add: g1_eq e1_def)
  have v1: "has_vertex g1 b" "has_vertex g1 c" "set (map fst (vertex_list g1)) = {b, c}"
    using vs d vertices_filter [of a "vertex_list g"] by (auto simp: g1_eq e1_def has_vertex_def)
  define e2 where "e2 = g1\<lparr>edge_list := filter (\<lambda>(e, t). \<not> (source e = b \<and> target e = c)) (edge_list g1)\<rparr>"
  have ep2: "endpoints e2 = {}"
    using ep1 unfolding e2_def endpoints_filter_pair by (simp add: g1_eq)
  then have el2: "edge_list e2 = []" by (simp add: endpoints_empty)
  have iso2: "isolated e2 b" "isolated e2 c"
    using ep2 by (simp_all add: isolated_endpoints)
  have "\<forall>u \<in> set (map fst (vertex_list e2)). \<not> (u \<noteq> b \<and> u \<noteq> c)"
    using v1(3) by (simp add: e2_def)
  from filter_nil_vertices [OF this] have "vertex_list (after_destructive e2 b c) = []"
    using iso2 by (simp add: after_destructive_def)
  then have fin1: "after_destructive e2 b c = final"
    using el2 by (simp add: after_destructive_def final_def e2_def g1_eq e1_def)
  have step2: "remove_edge g1 lb lc True = Inr final"
    using remove_edge_vertices_destructive [OF v1(1) v1(2) d(3)] l1 fin1
    by (simp add: remove_edge_labels e2_def)

  define r1 where "r1 = g\<lparr>edge_list := filter (\<lambda>(e, t). \<not> (source e = b \<and> target e = c)) (edge_list g)\<rparr>"
  define h1 where "h1 = after_destructive r1 b c"
  have rp1: "endpoints r1 = {(a, b)}"
    using es d unfolding r1_def endpoints_filter_pair by auto
  have riso1: "\<not> isolated r1 b" "isolated r1 c"
    using rp1 d by (auto simp: isolated_endpoints)
  have h1_eq: "h1 = r1\<lparr>vertex_list := filter (\<lambda>(u, p). u \<noteq> c) (vertex_list r1)\<rparr>"
    using riso1 by (simp add: h1_def after_destructive_def case_prod_unfold)
  have rstep1: "remove_edge g lb lc True = Inr h1"
    using remove_edge_vertices_destructive [OF vb vc d(3)] lb lc
    by (simp add: remove_edge_labels h1_def r1_def)
  have rl1: "label_map h1 la = Some a" "label_map h1 lb = Some b"
    using la lb by (simp_all add: h1_eq r1_def)
  have rv1: "has_vertex h1 a" "has_vertex h1 b" "set (map fst (vertex_list h1)) = {a, b}"
    using vs d vertices_filter [of c "vertex_list g"] by (auto simp: h1_eq r1_def has_vertex_def)
  define r2 where "r2 = h1\<lparr>edge_list := filter (\<lambda>(e, t). \<not> (source e = a \<and> target e = b)) (edge_list h1)\<rparr>"
  have rp2: "endpoints r2 = {}"
    using rp1 unfolding r2_def endpoints_filter_pair by (simp add: h1_eq)
  then have rl2: "edge_list r2 = []" by (simp add: endpoints_empty)
  have riso2: "isolated r2 a" "isolated r2 b"
    using rp2 by (simp_all add: isolated_endpoints)
  have "\<forall>u \<in> set (map fst (vertex_list r2)). \<not> (u \<noteq> a \<and> u \<noteq> b)"
    using rv1(3) by (simp add: r2_def)
  from filter_nil_vertices [OF this] have "vertex_list (after_destructive r2 a b) = []"
    using riso2 by (simp add: after_destructive_def)
  then have rfin: "after_destructive r2 a b = final"
    using rl2 by (simp add: after_destructive_def final_def r2_def h1_eq r1_def)
  have rstep2: "remove_edge h1 la lb True = Inr final"
    using remove_edge_vertices_destructive [OF rv1(1) rv1(2) d(1)] rl1 rfin
    by (simp add: remove_edge_labels r2_def)

  have "vertex_list final = [] \<and> edge_list final = [] \<and>
        num_vertices final = 0 \<and> num_edges final = 0"
    by (simp add: final_def num_vertices_def num_edges_def)
  then show ?thesis using step1 step2 rstep1 rstep2 by simp
qed

theorem destructive_path_removal_witness:
  "two_edge_path path_ABC ''A'' ''B'' ''C'' \<and>
   (\<exists>g'. and_then (remove_edge path_ABC ''A'' ''B'' True) (\<lambda>g1. remove_edge g1 ''B'' ''C'' True) = Inr g' \<and>
          and_then (remove_edge path_ABC ''B'' ''C'' True) (\<lambda>g1. remove_edge g1 ''A'' ''B'' True) = Inr g' \<and>
          vertex_list g' = [] \<and> edge_list g' = [] \<and>
          num_vertices g' = 0 \<and> num_edges g' = 0)"
proof -
  have h: "two_edge_path path_ABC ''A'' ''B'' ''C''"
    by (simp add: two_edge_path_def path_ABC_def endpoints_def source_def target_def)
  show ?thesis
    using h destructive_path_removal [OF h] by simp
qed

section \<open>TreeView\<close>

text \<open>
  C10.  \<open>isRoot\<close> returns true exactly for a key of the tree map whose stored parent is
  the null vertex, false exactly for a key with another parent, and for a descriptor
  that is not a key it returns no boolean: it ends with the out-of-range error.
\<close>

theorem isRoot_keys_only:
  "(isRoot tv vd = Inr True \<longleftrightarrow> (\<exists>r. tree tv vd = Some r \<and> parent r = null_vertex)) \<and>
   (isRoot tv vd = Inr False \<longleftrightarrow> (\<exists>r. tree tv vd = Some r \<and> parent r \<noteq> null_vertex)) \<and>
   (tree tv vd = None \<longrightarrow> isRoot tv vd = Inl OutOfRange)"
  by (auto simp: isRoot_def split: option.splits)

theorem isRoot_keys_only_witness:
  "tree small_view 5 = None \<and> isRoot small_view 5 = Inl OutOfRange \<and>
   (\<exists>r. tree small_view 1 = Some r \<and> parent r = null_vertex) \<and> isRoot small_view 1 = Inr True \<and>
   (\<exists>r. tree small_view 2 = Some r \<and> parent r \<noteq> null_vertex) \<and> isRoot small_view 2 = Inr False"
proof -
  have h: "tree small_view 5 = None"
    "\<exists>r. tree small_view 1 = Some r \<and> parent r = null_vertex"
    "\<exists>r. tree small_view 2 = Some r \<and> parent r \<noteq> null_vertex"
    by (simp_all add: small_view_def TreeView_default_def null_vertex_def)
  show ?thesis
    using h isRoot_keys_only [of small_view 5] isRoot_keys_only [of small_view 1]
      isRoot_keys_only [of small_view 2]
    by simp
qed

subsection \<open>Copies\<close>

lemma one_subscribed_built:
  "subscribeTreeView nd
     \<lparr>views = [1 \<mapsto> TreeView_default\<lparr>crossEdges := [(1, 2, 1)]\<rparr>], subscribed = (\<lambda>p. []), calls = []\<rparr> 7 1
   = Inr one_subscribed"
  by (simp add: subscribeTreeView_def setPublisher_def TreeView_default_def one_subscribed_def)

lemma copy_assign_result:
  assumes "views w this = Some tv" and "views w other = Some ov"
  shows "copy_assign w this other =
           Inr (w\<lparr>views := (views w)(this \<mapsto>
                  tv\<lparr>publisher := publisher ov, tree := tree ov, crossEdges := crossEdges ov\<rparr>)\<rparr>)"
  using assms by (simp add: copy_assign_def)

lemma copy_construct_result:
  assumes "views w this = None" and "views w other = Some ov"
  shows "copy_construct w this other =
           Inr (w\<lparr>views := (views w)(this \<mapsto>
                  \<lparr>publisher = publisher ov, tree = tree ov, crossEdges = crossEdges ov,
                   treeUpdated = []\<rparr>)\<rparr>)"
proof -
  have "this \<noteq> other" using assms by auto
  then show ?thesis
    using assms by (simp add: copy_construct_def copy_assign_def TreeView_default_def)
qed

lemma destroy_result:
  assumes "views w this = Some tv"
  shows "destroy w this =
           Inr (case publisher tv of
                  Some p \<Rightarrow> w\<lparr>subscribed := (subscribed w)(p := removeAll this (subscribed w p)),
                               calls := calls w @ [Unsubscribe p this],
                               views := (views w)(this := None)\<rparr>
                | None \<Rightarrow> w\<lparr>views := (views w)(this := None)\<rparr>)"
  using assms by (simp add: destroy_def unsubscribeTreeView_def Let_def split: option.splits)

text \<open>
  C5, as the code has it.  A copy, made by the copy constructor or by assignment to a
  view that has no publisher, takes the tree, the cross edges and the publisher pointer
  of the original and none of the slots of its signal.  Copying makes no call on any
  publisher and registers nothing.  A copy-constructed view whose original had a
  publisher calls \<open>unsubscribeTreeView\<close> on that publisher, with its own address,
  when it is destroyed; a copy of a view without publisher calls nothing.
\<close>

theorem copy_takes_publisher_pointer:
  assumes "views w other = Some ov"
  shows "(views w this = None \<longrightarrow>
            (\<exists>w'. copy_construct w this other = Inr w' \<and>
               views w' this = Some \<lparr>publisher = publisher ov, tree = tree ov,
                                     crossEdges = crossEdges ov, treeUpdated = []\<rparr> \<and>
               subscribed w' = subscribed w \<and> calls w' = calls w \<and>
               (\<exists>w''. destroy w' this = Inr w'' \<and>
                  calls w'' = calls w @ (case publisher ov of None \<Rightarrow> [] | Some p \<Rightarrow> [Unsubscribe p this])))) \<and>
         (\<forall>tv. views w this = Some tv \<and> publisher tv = None \<longrightarrow>
            (\<exists>w'. copy_assign w this other = Inr w' \<and>
               views w' this = Some (tv\<lparr>publisher := publisher ov, tree := tree ov,
                                        crossEdges := crossEdges ov\<rparr>) \<and>
               subscribed w' = subscribed w \<and> calls w' = calls w))"
proof (intro conjI impI allI)
  assume fresh: "views w this = None"
  define w' where "w' = w\<lparr>views := (views w)(this \<mapsto>
                  \<lparr>publisher = publisher ov, tree = tree ov, crossEdges = crossEdges ov,
                   treeUpdated = []\<rparr>)\<rparr>"
  have c: "copy_construct w this other = Inr w'"
    using copy_construct_result [OF fresh assms] by (simp add: w'_def)
  have v: "views w' this = Some \<lparr>publisher = publisher ov, tree = tree ov,
                                     crossEdges = crossEdges ov, treeUpdated = []\<rparr>"
    by (simp add: w'_def)
  have d: "\<exists>w''. destroy w' this = Inr w'' \<and>
                  calls w'' = calls w @ (case publisher ov of None \<Rightarrow> [] | Some p \<Rightarrow> [Unsubscribe p this])"
    using destroy_result [OF v] by (simp add: w'_def split: option.splits)
  show "\<exists>w'. copy_construct w this other = Inr w' \<and>
               views w' this = Some \<lparr>publisher = publisher ov, tree = tree ov,
                                     crossEdges = crossEdges ov, treeUpdated = []\<rparr> \<and>
               subscribed w' = subscribed w \<and> calls w' = calls w \<and>
               (\<exists>w''. destroy w' this = Inr w'' \<and>
                  calls w'' = calls w @ (case publisher ov of None \<Rightarrow> [] | Some p \<Rightarrow> [Unsubscribe p this]))"
    using c v d by (intro exI [of _ w']) (simp add: w'_def)
next
  fix tv assume "views w this = Some tv \<and> publisher tv = None"
  then have "views w this = Some tv" by simp
  from copy_assign_result [OF this assms]
  show "\<exists>w'. copy_assign w this other = Inr w' \<and>
               views w' this = Some (tv\<lparr>publisher := publisher ov, tree := tree ov,
                                        crossEdges := crossEdges ov\<rparr>) \<and>
               subscribed w' = subscribed w \<and> calls w' = calls w"
    by simp
qed

theorem copy_takes_publisher_pointer_witness:
  "views one_subscribed 1 = Some (TreeView_default\<lparr>publisher := Some 7, crossEdges := [(1, 2, 1)]\<rparr>) \<and>
   views one_subscribed 2 = None \<and>
   (\<exists>w'. copy_construct one_subscribed 2 1 = Inr w' \<and>
      views w' 2 = Some \<lparr>publisher = Some 7, tree = Map.empty,
                          crossEdges = [(1, 2, 1)], treeUpdated = []\<rparr> \<and>
      subscribed w' = subscribed one_subscribed \<and> calls w' = calls one_subscribed \<and>
      (\<exists>w''. destroy w' 2 = Inr w'' \<and> calls w'' = calls one_subscribed @ [Unsubscribe 7 2]))"
proof -
  have h: "views one_subscribed 1 =
             Some (TreeView_default\<lparr>publisher := Some 7, crossEdges := [(1, 2, 1)]\<rparr>)"
    "views one_subscribed 2 = None"
    by (simp_all add: one_subscribed_def)
  show ?thesis
    using h copy_takes_publisher_pointer [OF h(1), of 2]
    by (simp add: TreeView_default_def)
qed

text \<open>
  C5 as stated fails: the copy of a subscribed view carries the publisher pointer of the
  original, and its destruction calls \<open>unsubscribeTreeView\<close> on that publisher.
\<close>

theorem copy_keeps_publisher_counterexample:
  "map_option publisher (views one_subscribed 1) = Some (Some 7) \<and>
   and_then (copy_construct one_subscribed 2 1) (\<lambda>w. Inr (map_option publisher (views w 2)))
     = Inr (Some (Some 7)) \<and>
   and_then (copy_construct one_subscribed 2 1) (\<lambda>w. and_then (destroy w 2) (\<lambda>w'. Inr (calls w')))
     = Inr [Subscribe 7 1, Unsubscribe 7 2]"
  by (simp add: copy_construct_def copy_assign_def destroy_def unsubscribeTreeView_def
      one_subscribed_def TreeView_default_def Let_def)

subsection \<open>Moves and destruction\<close>

lemma move_construct_result:
  assumes "views w other = Some ov" and "publisher ov = Some p" and "views w this = None"
  shows "move_construct nd w this other =
           Inr (w\<lparr>views := (views w)
                    (this \<mapsto> \<lparr>publisher = Some p, tree = tree ov, crossEdges = crossEdges ov,
                              treeUpdated = treeUpdated ov\<rparr>,
                     other \<mapsto> \<lparr>publisher = None, tree = Map.empty, crossEdges = [],
                               treeUpdated = []\<rparr>),
                  subscribed := (subscribed w)(p := removeAll other (subscribed w p) @ [this]),
                  calls := calls w @ [Unsubscribe p other, Subscribe p this]\<rparr>)"
proof -
  have ne: "this \<noteq> other" using assms by auto
  show ?thesis
    using assms ne
    by (cases ov) (simp add: move_construct_def Let_def unsubscribeTreeView_def subscribeTreeView_def
        setPublisher_def TreeView_default_def)
qed

lemma move_construct_unsubscribed:
  assumes "views w other = Some ov" and "publisher ov = None" and "views w this = None"
  shows "move_construct nd w this other =
           Inr (w\<lparr>views := (views w)
                    (this \<mapsto> \<lparr>publisher = None, tree = tree ov, crossEdges = crossEdges ov,
                              treeUpdated = treeUpdated ov\<rparr>,
                     other \<mapsto> \<lparr>publisher = None, tree = Map.empty, crossEdges = [],
                               treeUpdated = []\<rparr>)\<rparr>)"
proof -
  have ne: "this \<noteq> other" using assms by auto
  show ?thesis
    using assms ne
    by (cases ov) (simp add: move_construct_def Let_def TreeView_default_def)
qed

lemma consistent_unique:
  assumes "consistent w" and "v \<in> set (subscribed w p)" and "v \<in> set (subscribed w q)"
  shows "p = q"
  using assms unfolding consistent_def by (metis option.inject)

lemma subscribe_twice_refused:
  assumes "views w v = Some tv" and "publisher tv = Some p"
  shows "subscribeTreeView False w q v = Inl AssertionFailed"
  using assms by (simp add: subscribeTreeView_def setPublisher_def)

lemma subscribe_twice_overwrites:
  assumes "views w v = Some tv" and "publisher tv = Some p"
  shows "subscribeTreeView True w q v =
           Inr (w\<lparr>views := (views w)(v \<mapsto> tv\<lparr>publisher := Some q\<rparr>),
                  subscribed := (subscribed w)(q := subscribed w q @ [v]),
                  calls := calls w @ [Subscribe q v]\<rparr>)"
  using assms by (simp add: subscribeTreeView_def setPublisher_def)

lemma consistent_one_subscribed: "consistent one_subscribed"
  by (auto simp: consistent_def one_subscribed_def)

lemma move_construct_transfers:
  assumes c: "consistent w"
    and o: "views w other = Some ov" and p: "publisher ov = Some p" and t: "views w this = None"
  shows "\<exists>w'. move_construct nd w this other = Inr w' \<and>
           calls w' = calls w @ [Unsubscribe p other, Subscribe p this] \<and>
           (\<forall>q. other \<notin> set (subscribed w' q)) \<and>
           (\<forall>q. this \<in> set (subscribed w' q) \<longleftrightarrow> q = p) \<and>
           map_option publisher (views w' other) = Some None \<and>
           map_option publisher (views w' this) = Some (Some p) \<and>
           consistent w'"
proof -
  define w' where "w' = w\<lparr>views := (views w)
                    (this \<mapsto> \<lparr>publisher = Some p, tree = tree ov, crossEdges = crossEdges ov,
                              treeUpdated = treeUpdated ov\<rparr>,
                     other \<mapsto> \<lparr>publisher = None, tree = Map.empty, crossEdges = [],
                               treeUpdated = []\<rparr>),
                  subscribed := (subscribed w)(p := removeAll other (subscribed w p) @ [this]),
                  calls := calls w @ [Unsubscribe p other, Subscribe p this]\<rparr>"
  have ne: "this \<noteq> other" using o t by auto
  have m: "move_construct nd w this other = Inr w'"
    using move_construct_result [OF o p t] by (simp add: w'_def)
  have this_free: "this \<notin> set (subscribed w q)" for q
    using c t by (simp add: consistent_def)
  have other_only: "other \<in> set (subscribed w q) \<longleftrightarrow> q = p" for q
    using c o p by (auto simp: consistent_def)
  have a: "other \<notin> set (subscribed w' q)" for q
    using ne other_only [of q] by (simp add: w'_def)
  have b: "this \<in> set (subscribed w' q) \<longleftrightarrow> q = p" for q
    using this_free [of q] by (simp add: w'_def)
  have "consistent w'"
    unfolding consistent_def
  proof (intro allI)
    fix q v
    show "(v \<in> set (subscribed w' q)) = (\<exists>tv. views w' v = Some tv \<and> publisher tv = Some q)"
    proof (cases "v = this \<or> v = other")
      case True
      then show ?thesis using a [of q] b [of q] ne by (auto simp: w'_def)
    next
      case False
      then have "(v \<in> set (subscribed w' q)) = (v \<in> set (subscribed w q))"
        by (simp add: w'_def)
      moreover have "views w' v = views w v" using False by (simp add: w'_def)
      ultimately show ?thesis using c by (simp add: consistent_def)
    qed
  qed
  moreover have "calls w' = calls w @ [Unsubscribe p other, Subscribe p this]"
    by (simp add: w'_def)
  moreover have "map_option publisher (views w' other) = Some None"
    by (simp add: w'_def)
  moreover have "map_option publisher (views w' this) = Some (Some p)"
    using ne by (simp add: w'_def)
  ultimately show ?thesis using m a b by blast
qed

lemma destroy_unsubscribes:
  assumes c: "consistent w" and v: "views w this = Some tv" and p: "publisher tv = Some p"
  shows "\<exists>w'. destroy w this = Inr w' \<and>
           calls w' = calls w @ [Unsubscribe p this] \<and>
           views w' this = None \<and>
           (\<forall>q. this \<notin> set (subscribed w' q)) \<and>
           consistent w'"
proof -
  define w' where "w' = w\<lparr>subscribed := (subscribed w)(p := removeAll this (subscribed w p)),
                               calls := calls w @ [Unsubscribe p this],
                               views := (views w)(this := None)\<rparr>"
  have d: "destroy w this = Inr w'"
    using destroy_result [OF v] p by (simp add: w'_def)
  have only: "this \<in> set (subscribed w q) \<longleftrightarrow> q = p" for q
    using c v p by (auto simp: consistent_def)
  have a: "this \<notin> set (subscribed w' q)" for q
    using only [of q] by (simp add: w'_def)
  have "consistent w'"
    unfolding consistent_def
  proof (intro allI)
    fix q u
    show "(u \<in> set (subscribed w' q)) = (\<exists>tv. views w' u = Some tv \<and> publisher tv = Some q)"
    proof (cases "u = this")
      case True
      then show ?thesis using a [of q] by (simp add: w'_def)
    next
      case False
      then have "(u \<in> set (subscribed w' q)) = (u \<in> set (subscribed w q))"
        by (simp add: w'_def)
      moreover have "views w' u = views w u" using False by (simp add: w'_def)
      ultimately show ?thesis using c by (simp add: consistent_def)
    qed
  qed
  moreover have "calls w' = calls w @ [Unsubscribe p this]" "views w' this = None"
    by (simp_all add: w'_def)
  ultimately show ?thesis using d a by blast
qed

lemma destroy_detached:
  assumes c: "consistent w" and v: "views w this = Some tv" and p: "publisher tv = None"
  shows "\<exists>w'. destroy w this = Inr w' \<and> calls w' = calls w \<and> subscribed w' = subscribed w \<and>
           views w' this = None \<and> consistent w'"
proof -
  define w' where "w' = w\<lparr>views := (views w)(this := None)\<rparr>"
  have d: "destroy w this = Inr w'"
    using destroy_result [OF v] p by (simp add: w'_def)
  have free: "this \<notin> set (subscribed w q)" for q
    using c v p by (simp add: consistent_def)
  have "consistent w'"
    unfolding consistent_def
  proof (intro allI)
    fix q u
    show "(u \<in> set (subscribed w' q)) = (\<exists>tv. views w' u = Some tv \<and> publisher tv = Some q)"
      using c free [of q] by (cases "u = this") (simp_all add: w'_def consistent_def)
  qed
  then show ?thesis using d by (simp add: w'_def)
qed

text \<open>
  What the move constructor and the destructor do for C6.  For every state of views and
  publishers:
  \<^item> in a build with assertions a view whose publisher is set cannot be subscribed a
    second time (the assertion in \<open>setPublisher\<close>), and where the publisher pointers of
    the views and the registrations of the publishers agree, a view is registered with
    at most one publisher;
  \<^item> move-constructing from a view subscribed to \<open>p\<close> first unsubscribes the source and
    then subscribes the destination; afterwards the source is not registered with \<open>p\<close>
    and its publisher is null, the destination is registered with \<open>p\<close> and its
    publisher is \<open>p\<close>, and destroying the moved-from source makes no call on a
    publisher;
  \<^item> destroying a view subscribed to \<open>p\<close> unsubscribes it from \<open>p\<close>; afterwards it is
    not registered with \<open>p\<close>;
  \<^item> where pointers and registrations agree before a move or a destruction, they agree
    after it, the view that is gone or moved from is registered with no publisher at
    all, and the destination of a move is registered with \<open>p\<close> only.
\<close>

lemma subscription_follows_lifetime:
  "(\<forall>v tv p q. views w v = Some tv \<and> publisher tv = Some p \<longrightarrow>
      subscribeTreeView False w q v = Inl AssertionFailed) \<and>
   (\<forall>this other ov p.
      views w other = Some ov \<and> publisher ov = Some p \<and> views w this = None \<longrightarrow>
      (\<exists>w'. move_construct nd w this other = Inr w' \<and>
         calls w' = calls w @ [Unsubscribe p other, Subscribe p this] \<and>
         other \<notin> set (subscribed w' p) \<and>
         this \<in> set (subscribed w' p) \<and>
         map_option publisher (views w' other) = Some None \<and>
         map_option publisher (views w' this) = Some (Some p) \<and>
         (\<exists>w''. destroy w' other = Inr w'' \<and> calls w'' = calls w' \<and>
            subscribed w'' = subscribed w') \<and>
         (consistent w \<longrightarrow>
            consistent w' \<and> (\<forall>q. other \<notin> set (subscribed w' q)) \<and>
            (\<forall>q. this \<in> set (subscribed w' q) \<longleftrightarrow> q = p)))) \<and>
   (\<forall>this tv p.
      views w this = Some tv \<and> publisher tv = Some p \<longrightarrow>
      (\<exists>w'. destroy w this = Inr w' \<and>
         calls w' = calls w @ [Unsubscribe p this] \<and>
         views w' this = None \<and>
         this \<notin> set (subscribed w' p) \<and>
         (consistent w \<longrightarrow> consistent w' \<and> (\<forall>q. this \<notin> set (subscribed w' q))))) \<and>
   (consistent w \<longrightarrow>
      (\<forall>v p q. v \<in> set (subscribed w p) \<and> v \<in> set (subscribed w q) \<longrightarrow> p = q))"
proof (intro conjI allI impI)
  fix v tv p q
  assume "views w v = Some tv \<and> publisher tv = Some p"
  then show "subscribeTreeView False w q v = Inl AssertionFailed"
    using subscribe_twice_refused by blast
next
  fix this other ov p
  assume a: "views w other = Some ov \<and> publisher ov = Some p \<and> views w this = None"
  then have o: "views w other = Some ov" and pp: "publisher ov = Some p"
    and t: "views w this = None"
    by simp_all
  have ne: "this \<noteq> other" using o t by auto
  define w' where "w' = w\<lparr>views := (views w)
                    (this \<mapsto> \<lparr>publisher = Some p, tree = tree ov, crossEdges = crossEdges ov,
                              treeUpdated = treeUpdated ov\<rparr>,
                     other \<mapsto> \<lparr>publisher = None, tree = Map.empty, crossEdges = [],
                               treeUpdated = []\<rparr>),
                  subscribed := (subscribed w)(p := removeAll other (subscribed w p) @ [this]),
                  calls := calls w @ [Unsubscribe p other, Subscribe p this]\<rparr>"
  have m: "move_construct nd w this other = Inr w'"
    using move_construct_result [OF o pp t] by (simp add: w'_def)
  have k: "calls w' = calls w @ [Unsubscribe p other, Subscribe p this]"
    by (simp add: w'_def)
  have so: "other \<notin> set (subscribed w' p)" using ne by (simp add: w'_def)
  have st: "this \<in> set (subscribed w' p)" by (simp add: w'_def)
  have po: "map_option publisher (views w' other) = Some None" by (simp add: w'_def)
  have pt: "map_option publisher (views w' this) = Some (Some p)" using ne by (simp add: w'_def)
  have vo: "views w' other = Some \<lparr>publisher = None, tree = Map.empty, crossEdges = [],
                               treeUpdated = []\<rparr>"
    by (simp add: w'_def)
  have ds: "\<exists>w''. destroy w' other = Inr w'' \<and> calls w'' = calls w' \<and> subscribed w'' = subscribed w'"
    using destroy_result [OF vo] by simp
  have cs: "consistent w \<longrightarrow>
            consistent w' \<and> (\<forall>q. other \<notin> set (subscribed w' q)) \<and>
            (\<forall>q. this \<in> set (subscribed w' q) \<longleftrightarrow> q = p)"
  proof
    assume c: "consistent w"
    from move_construct_transfers [OF c o pp t, where nd = nd] m
    show "consistent w' \<and> (\<forall>q. other \<notin> set (subscribed w' q)) \<and>
            (\<forall>q. this \<in> set (subscribed w' q) \<longleftrightarrow> q = p)"
      by auto
  qed
  show "\<exists>w'. move_construct nd w this other = Inr w' \<and>
         calls w' = calls w @ [Unsubscribe p other, Subscribe p this] \<and>
         other \<notin> set (subscribed w' p) \<and>
         this \<in> set (subscribed w' p) \<and>
         map_option publisher (views w' other) = Some None \<and>
         map_option publisher (views w' this) = Some (Some p) \<and>
         (\<exists>w''. destroy w' other = Inr w'' \<and> calls w'' = calls w' \<and>
            subscribed w'' = subscribed w') \<and>
         (consistent w \<longrightarrow>
            consistent w' \<and> (\<forall>q. other \<notin> set (subscribed w' q)) \<and>
            (\<forall>q. this \<in> set (subscribed w' q) \<longleftrightarrow> q = p))"
    using m k so st po pt ds cs by blast
next
  fix this tv p
  assume a: "views w this = Some tv \<and> publisher tv = Some p"
  then have v: "views w this = Some tv" and pp: "publisher tv = Some p" by simp_all
  define w' where "w' = w\<lparr>subscribed := (subscribed w)(p := removeAll this (subscribed w p)),
                               calls := calls w @ [Unsubscribe p this],
                               views := (views w)(this := None)\<rparr>"
  have d: "destroy w this = Inr w'"
    using destroy_result [OF v] pp by (simp add: w'_def)
  have f: "calls w' = calls w @ [Unsubscribe p this]" "views w' this = None"
    "this \<notin> set (subscribed w' p)"
    by (simp_all add: w'_def)
  have cs: "consistent w \<longrightarrow> consistent w' \<and> (\<forall>q. this \<notin> set (subscribed w' q))"
  proof
    assume c: "consistent w"
    from destroy_unsubscribes [OF c v pp] d
    show "consistent w' \<and> (\<forall>q. this \<notin> set (subscribed w' q))" by auto
  qed
  show "\<exists>w'. destroy w this = Inr w' \<and>
         calls w' = calls w @ [Unsubscribe p this] \<and>
         views w' this = None \<and>
         this \<notin> set (subscribed w' p) \<and>
         (consistent w \<longrightarrow> consistent w' \<and> (\<forall>q. this \<notin> set (subscribed w' q)))"
    using d f cs by blast
next
  fix v p q
  assume "consistent w" and "v \<in> set (subscribed w p) \<and> v \<in> set (subscribed w q)"
  then show "p = q" using consistent_unique by blast
qed

lemma subscription_follows_lifetime_example:
  "consistent one_subscribed \<and>
   (\<exists>ov. views one_subscribed 1 = Some ov \<and> publisher ov = Some 7) \<and>
   views one_subscribed 2 = None \<and>
   (\<exists>w'. move_construct nd one_subscribed 2 1 = Inr w' \<and>
      calls w' = calls one_subscribed @ [Unsubscribe 7 1, Subscribe 7 2] \<and>
      (\<forall>q. 1 \<notin> set (subscribed w' q)) \<and>
      2 \<in> set (subscribed w' 7) \<and>
      map_option publisher (views w' 1) = Some None \<and>
      map_option publisher (views w' 2) = Some (Some 7) \<and>
      consistent w') \<and>
   (\<exists>w'. destroy one_subscribed 1 = Inr w' \<and>
      calls w' = calls one_subscribed @ [Unsubscribe 7 1] \<and>
      views w' 1 = None \<and>
      (\<forall>q. 1 \<notin> set (subscribed w' q)) \<and>
      consistent w')"
proof -
  have c: "consistent one_subscribed"
    by (auto simp: consistent_def one_subscribed_def)
  have v: "\<exists>ov. views one_subscribed 1 = Some ov \<and> publisher ov = Some 7"
    "views one_subscribed 2 = None"
    by (simp_all add: one_subscribed_def)
  from v(1) obtain ov where ov: "views one_subscribed 1 = Some ov \<and> publisher ov = Some 7"
    by blast
  note t = subscription_follows_lifetime [where w = one_subscribed and nd = nd]
  have mv: "\<exists>w'. move_construct nd one_subscribed 2 1 = Inr w' \<and>
      calls w' = calls one_subscribed @ [Unsubscribe 7 1, Subscribe 7 2] \<and>
      (\<forall>q. 1 \<notin> set (subscribed w' q)) \<and>
      2 \<in> set (subscribed w' 7) \<and>
      map_option publisher (views w' 1) = Some None \<and>
      map_option publisher (views w' 2) = Some (Some 7) \<and>
      consistent w'"
    using t c ov v(2) by blast
  have ds: "\<exists>w'. destroy one_subscribed 1 = Inr w' \<and>
      calls w' = calls one_subscribed @ [Unsubscribe 7 1] \<and>
      views w' 1 = None \<and>
      (\<forall>q. 1 \<notin> set (subscribed w' q)) \<and>
      consistent w'"
    using t c ov by blast
  show ?thesis using c v mv ds by blast
qed

text \<open>
  C6 on a path through copy assignment.  The assignment overwrites the publisher pointer
  of its target and makes no call on the publisher.  Start where view 1 is subscribed to
  publisher 7 and pointers and registrations agree; assign view 2, which has no
  publisher, to view 1; destroy view 1.  No call is made on the publisher, and the
  publisher still holds the registration of view 1, which is gone: this path ends the
  lifetime of a subscribed view without detaching it.
\<close>

theorem copy_assign_loses_subscription:
  "consistent assigned_over \<and>
   assigned_over = one_subscribed\<lparr>views := (views one_subscribed)(2 \<mapsto> TreeView_default)\<rparr> \<and>
   and_then (copy_assign assigned_over 1 2)
     (\<lambda>w. and_then (destroy w 1) (\<lambda>w'. Inr (calls w', subscribed w' 7, views w' 1)))
     = Inr ([Subscribe 7 1], [1], None)"
proof (intro conjI)
  show "consistent assigned_over"
    by (auto simp: consistent_def assigned_over_def TreeView_default_def)
  show "assigned_over = one_subscribed\<lparr>views := (views one_subscribed)(2 \<mapsto> TreeView_default)\<rparr>"
    by (simp add: assigned_over_def one_subscribed_def fun_upd_twist)
  show "and_then (copy_assign assigned_over 1 2)
     (\<lambda>w. and_then (destroy w 1) (\<lambda>w'. Inr (calls w', subscribed w' 7, views w' 1)))
     = Inr ([Subscribe 7 1], [1], None)"
    by (simp add: copy_assign_def destroy_def assigned_over_def TreeView_default_def Let_def)
qed

section \<open>The traversal\<close>

subsection \<open>Termination\<close>

lemma ends_mono: "A \<subseteq> B \<Longrightarrow> ends A \<subseteq> ends B"
  by (auto simp: ends_def)

lemma ends_member: "e \<in> E \<Longrightarrow> source e \<in> ends E \<and> target e \<in> ends E"
  by (auto simp: ends_def)

lemma finite_unvisited_ends: "finite (unvisited_ends g st)"
  by (simp add: unvisited_ends_def ends_def)

lemma other_end_cases: "other_end e u = source e \<or> other_end e u = target e"
  by (simp add: other_end_def)

lemma incident_subset: "set (incident_edges g u) \<subseteq> set (map fst (edge_list g))"
  by (auto simp: incident_edges_def)

lemma visited_dom: "visited st = dom (tree (view st))"
  by (auto simp: visited_def is_visited_def)

lemma finished_diff: "finished st = visited st - set (queue st) - {current st}"
  by (auto simp: finished_def is_finished_def visited_def)

lemma visited_simps [simp]:
  "visited (st\<lparr>pending := p\<rparr>) = visited st"
  "visited (st\<lparr>queue := q\<rparr>) = visited st"
  "visited (st\<lparr>current := c\<rparr>) = visited st"
  "visited (st\<lparr>reached_by := r\<rparr>) = visited st"
  by (simp_all add: visited_def is_visited_def)

lemma parent_of_simps [simp]:
  "parent_of (st\<lparr>pending := p\<rparr>) = parent_of st"
  "parent_of (st\<lparr>queue := q\<rparr>) = parent_of st"
  "parent_of (st\<lparr>current := c\<rparr>) = parent_of st"
  "parent_of (st\<lparr>reached_by := r\<rparr>) = parent_of st"
  by (simp_all add: parent_of_def fun_eq_iff)

lemma step_done: "pending st = [] \<Longrightarrow> queue st = [] \<Longrightarrow> step g again st = st"
  by (simp add: step_def)

lemma step_pop:
  "pending st = [] \<Longrightarrow> queue st = u # q \<Longrightarrow>
   step g again st = st\<lparr>queue := q, current := u, pending := incident_edges g u\<rparr>"
  by (simp add: step_def)

lemma step_discover:
  "pending st = e # es \<Longrightarrow> other_end e (current st) \<notin> visited st \<Longrightarrow>
   step g again st =
     st\<lparr>pending := es,
        view := (view st)\<lparr>tree := add_child (tree (view st)) (current st) (other_end e (current st))\<rparr>,
        queue := queue st @ [other_end e (current st)],
        reached_by := (reached_by st)(other_end e (current st) \<mapsto> e)\<rparr>"
  by (simp add: step_def examine_def Let_def visited_def is_visited_def)

lemma step_skip:
  "pending st = e # es \<Longrightarrow> other_end e (current st) \<in> visited st \<Longrightarrow>
   reached_by st (current st) = Some e \<or> (\<not> again \<and> other_end e (current st) \<in> finished st) \<Longrightarrow>
   step g again st = st\<lparr>pending := es\<rparr>"
  by (auto simp: step_def examine_def Let_def finished_def visited_def is_visited_def is_finished_def)

lemma step_record:
  "pending st = e # es \<Longrightarrow> other_end e (current st) \<in> visited st \<Longrightarrow>
   reached_by st (current st) \<noteq> Some e \<Longrightarrow> again \<or> other_end e (current st) \<notin> finished st \<Longrightarrow>
   step g again st = st\<lparr>pending := es, view := (view st)\<lparr>crossEdges := crossEdges (view st) @ [e]\<rparr>\<rparr>"
  by (auto simp: step_def examine_def Let_def finished_def visited_def is_visited_def is_finished_def)

lemma step_decreases:
  assumes "\<not> (pending st = [] \<and> queue st = [])"
  shows "((g, again, step g again st), (g, again, st)) \<in>
           measures [\<lambda>(g, again, st). card (unvisited_ends g st) + length (queue st),
                     \<lambda>(g, again, st). length (pending st)]"
proof (cases "pending st")
  case Nil
  with assms obtain u q where q: "queue st = u # q" by (cases "queue st") auto
  have "set (map fst (edge_list g)) \<union> set (incident_edges g u) \<subseteq>
          set (map fst (edge_list g)) \<union> set (pending st)"
    using incident_subset [of g u] by auto
  from ends_mono [OF this] have "unvisited_ends g (step g again st) \<subseteq> unvisited_ends g st"
    using Nil q by (auto simp: step_pop unvisited_ends_def)
  then have "card (unvisited_ends g (step g again st)) \<le> card (unvisited_ends g st)"
    by (simp add: card_mono finite_unvisited_ends)
  moreover have "length (queue (step g again st)) < length (queue st)"
    using Nil q by (simp add: step_pop)
  ultimately show ?thesis by simp
next
  case (Cons e es)
  define v where "v = other_end e (current st)"
  have sub_es: "set (map fst (edge_list g)) \<union> set es \<subseteq>
          set (map fst (edge_list g)) \<union> set (pending st)"
    using Cons by auto
  show ?thesis
  proof (cases "v \<in> visited st")
    case True
    have "step g again st = st\<lparr>pending := es\<rparr> \<or>
          step g again st = st\<lparr>pending := es, view := (view st)\<lparr>crossEdges := crossEdges (view st) @ [e]\<rparr>\<rparr>"
      using step_skip [OF Cons, of again g] step_record [OF Cons, of again g] True
      unfolding v_def by blast
    then have f: "visited (step g again st) = visited st" "queue (step g again st) = queue st"
      "pending (step g again st) = es"
      by (auto simp: visited_def is_visited_def)
    from ends_mono [OF sub_es] have "unvisited_ends g (step g again st) \<subseteq> unvisited_ends g st"
      by (auto simp: unvisited_ends_def f)
    then have "card (unvisited_ends g (step g again st)) \<le> card (unvisited_ends g st)"
      by (simp add: card_mono finite_unvisited_ends)
    with f Cons show ?thesis by auto
  next
    case False
    have "e \<in> set (map fst (edge_list g)) \<union> set (pending st)"
      using Cons by simp
    from ends_member [OF this] have vin: "v \<in> unvisited_ends g st"
      using False other_end_cases [of e "current st"]
      by (auto simp: unvisited_ends_def v_def)
    note s = step_discover [OF Cons False [unfolded v_def], of g again]
    have vis: "v \<in> visited (step g again st)" "visited st \<subseteq> visited (step g again st)"
      by (auto simp: s visited_def is_visited_def add_child_def Let_def v_def)
    have f: "queue (step g again st) = queue st @ [v]" "pending (step g again st) = es"
      by (simp_all add: s v_def)
    from ends_mono [OF sub_es]
    have "unvisited_ends g (step g again st) \<subseteq> unvisited_ends g st - {v}"
      using vis by (auto simp: unvisited_ends_def f)
    then have "card (unvisited_ends g (step g again st)) \<le> card (unvisited_ends g st - {v})"
      by (simp add: card_mono finite_unvisited_ends)
    also have "\<dots> < card (unvisited_ends g st)"
      using vin finite_unvisited_ends [of g st] by (rule_tac card_Diff1_less) auto
    finally have c: "card (unvisited_ends g (step g again st)) < card (unvisited_ends g st)" .
    show ?thesis using c f Cons by auto
  qed
qed

termination traverse
proof (relation "measures [\<lambda>(g, again, st). card (unvisited_ends g st) + length (queue st),
                            \<lambda>(g, again, st). length (pending st)]")
  show "wf (measures [\<lambda>(g, again, st). card (unvisited_ends g st) + length (queue st),
                      \<lambda>(g, again :: bool, st :: bfs_state). length (pending st)])"
    by simp
next
  fix g :: "'t LabeledTransformTree" and again :: bool and st :: bfs_state
  assume "\<not> (pending st = [] \<and> queue st = [])"
  then show "((g, again, step g again st), (g, again, st)) \<in>
           measures [\<lambda>(g, again, st). card (unvisited_ends g st) + length (queue st),
                     \<lambda>(g, again, st). length (pending st)]"
    by (rule step_decreases)
qed

declare traverse.simps [simp del]

subsection \<open>What holds in every state\<close>

lemma distinct_incident:
  "distinct (map fst (edge_list g)) \<Longrightarrow> distinct (incident_edges g u)"
  by (simp add: incident_edges_def)

lemma incident_at: "e \<in> set (incident_edges g u) \<Longrightarrow> source e = u \<or> target e = u"
  by (simp add: incident_edges_def)

lemma incident_other_end:
  assumes "e \<in> set (incident_edges g u)"
  shows "e \<in> set (incident_edges g (other_end e u))"
  using assms by (auto simp: incident_edges_def other_end_def)

lemma other_end_joins:
  assumes "source e = u \<or> target e = u"
  shows "joins e u (other_end e u)"
  using assms by (auto simp: joins_def other_end_def)

lemma joins_ends: "joins e p w \<Longrightarrow> source e = u \<or> target e = u \<Longrightarrow> u = p \<or> u = w"
  by (auto simp: joins_def)

lemma dom_add_child: "dom (add_child m u v) = insert u (insert v (dom m))"
  by (auto simp: add_child_def Let_def)

lemma parent_add_child:
  assumes "u \<in> dom m"
  shows "map_option parent (add_child m u v w) = (if w = v then Some u else map_option parent (m w))"
  using assms by (auto simp: add_child_def Let_def)

lemma bfs_inv_start:
  assumes "distinct (map fst (edge_list g))"
  shows "bfs_inv g (start g root)"
  using assms distinct_incident [OF assms, of root]
  by (auto simp: bfs_inv_def start_def visited_dom finished_diff TreeView_default_def)

text \<open>An examined edge that is not the one the current vertex was reached by is no tree edge.\<close>

lemma not_tree_edge:
  assumes i: "bfs_inv g st" and p: "pending st = e # es"
    and r: "reached_by st (current st) \<noteq> Some e"
  shows "e \<notin> ran (reached_by st)"
proof
  define u where "u = current st"
  have inc: "source e = u \<or> target e = u"
    using i p incident_at [of e g u] unfolding bfs_inv_def u_def by auto
  assume "e \<in> ran (reached_by st)"
  then obtain w where w: "reached_by st w = Some e" by (auto simp: ran_def)
  with i obtain p' where p': "parent_of st w = Some p'" "joins e p' w"
    unfolding bfs_inv_def by blast
  from joins_ends [OF p'(2) inc] have "u = p' \<or> u = w" .
  then show False
  proof
    assume "u = w"
    with w r show False by (simp add: u_def)
  next
    assume "u = p'"
    with p'(1) w i have "e \<notin> set (pending st)"
      unfolding bfs_inv_def u_def by blast
    with p show False by simp
  qed
qed

lemma bfs_inv_pop:
  assumes d: "distinct (map fst (edge_list g))" and i: "bfs_inv g st"
    and p: "pending st = []" and q: "queue st = u # q"
  shows "bfs_inv g (st\<lparr>queue := q, current := u, pending := incident_edges g u\<rparr>)"
proof -
  define st' where "st' = st\<lparr>queue := q, current := u, pending := incident_edges g u\<rparr>"
  have fields: "current st' = u" "pending st' = incident_edges g u" "queue st' = q"
    "reached_by st' = reached_by st" "view st' = view st" "visited st' = visited st"
    "parent_of st' = parent_of st"
    by (simp_all add: st'_def)
  have rec: "recorded st' = recorded st"
    by (simp add: recorded_def fun_eq_iff fields)
  have old: "current st \<in> visited st" "set (queue st) \<subseteq> visited st" "distinct (queue st)"
    "current st \<notin> set (queue st)"
    using i unfolding bfs_inv_def by simp_all
  have no_child: "parent_of st w \<noteq> Some u" if "reached_by st w = Some e" for w e
    using i that q unfolding bfs_inv_def by (metis list.set_intros(1) option.inject)
  have fin: "finished st' \<subseteq> insert (current st) (finished st)"
    using q by (auto simp: finished_diff fields)
  have c7: "\<forall>w e. reached_by st' w = Some e \<longrightarrow>
         (\<exists>p. parent_of st' w = Some p \<and> p \<in> visited st' \<and> p \<notin> set (queue st') \<and> p \<noteq> w \<and> joins e p w)"
  proof (intro allI impI)
    fix w e assume "reached_by st' w = Some e"
    then have "reached_by st w = Some e" by (simp add: fields)
    with i obtain p' where "parent_of st w = Some p'" "p' \<in> visited st" "p' \<notin> set (queue st)"
      "p' \<noteq> w" "joins e p' w"
      unfolding bfs_inv_def by blast
    then show "\<exists>p. parent_of st' w = Some p \<and> p \<in> visited st' \<and> p \<notin> set (queue st') \<and> p \<noteq> w \<and> joins e p w"
      using q by (auto simp: fields)
  qed
  have c8: "\<forall>w e. reached_by st' w = Some e \<and> parent_of st' w = Some (current st') \<longrightarrow> e \<notin> set (pending st')"
    using no_child by (auto simp: fields)
  have c11: "\<forall>x \<in> finished st'. \<forall>e \<in> set (incident_edges g x). recorded st' e"
  proof (intro ballI)
    fix x e assume x: "x \<in> finished st'" and e: "e \<in> set (incident_edges g x)"
    show "recorded st' e"
    proof (cases "x = current st")
      case True
      then show ?thesis using i p e unfolding bfs_inv_def rec by simp
    next
      case False
      then have "x \<in> finished st" using x fin by auto
      then show ?thesis using i e unfolding bfs_inv_def rec by blast
    qed
  qed
  have "bfs_inv g st'"
    unfolding bfs_inv_def
    using old q c7 c8 c11 i distinct_incident [OF d, of u]
    by (simp add: fields bfs_inv_def)
  then show ?thesis by (simp add: st'_def)
qed

lemma bfs_inv_skip:
  assumes i: "bfs_inv g st" and p: "pending st = e # es"
    and s: "reached_by st (current st) = Some e \<or> other_end e (current st) \<in> finished st"
  shows "bfs_inv g (st\<lparr>pending := es\<rparr>)"
proof -
  define st' where "st' = st\<lparr>pending := es\<rparr>"
  have fields: "current st' = current st" "pending st' = es" "queue st' = queue st"
    "reached_by st' = reached_by st" "view st' = view st" "visited st' = visited st"
    "parent_of st' = parent_of st" "finished st' = finished st"
    by (simp_all add: st'_def finished_diff)
  have rec: "recorded st' = recorded st"
    by (simp add: recorded_def fun_eq_iff fields)
  have einc: "e \<in> set (incident_edges g (current st))"
    using i p unfolding bfs_inv_def by simp
  have "recorded st e"
    using s
  proof
    assume "reached_by st (current st) = Some e"
    then show ?thesis by (auto simp: recorded_def ran_def)
  next
    assume "other_end e (current st) \<in> finished st"
    with i incident_other_end [OF einc] show ?thesis unfolding bfs_inv_def by blast
  qed
  then have c12: "\<forall>e' \<in> set (incident_edges g (current st')). e' \<notin> set (pending st') \<longrightarrow> recorded st' e'"
    using i p unfolding bfs_inv_def rec fields by auto
  have "bfs_inv g st'"
    unfolding bfs_inv_def
    using c12 i p by (simp add: fields rec bfs_inv_def)
  then show ?thesis by (simp add: st'_def)
qed

lemma bfs_inv_record:
  assumes i: "bfs_inv g st" and p: "pending st = e # es"
    and v: "other_end e (current st) \<in> visited st"
    and r: "reached_by st (current st) \<noteq> Some e"
  shows "bfs_inv g (st\<lparr>pending := es, view := (view st)\<lparr>crossEdges := crossEdges (view st) @ [e]\<rparr>\<rparr>)"
proof -
  define u where "u = current st"
  define st' where "st' = st\<lparr>pending := es, view := (view st)\<lparr>crossEdges := crossEdges (view st) @ [e]\<rparr>\<rparr>"
  have fields: "current st' = current st" "pending st' = es" "queue st' = queue st"
    "reached_by st' = reached_by st" "crossEdges (view st') = crossEdges (view st) @ [e]"
    "visited st' = visited st" "parent_of st' = parent_of st" "finished st' = finished st"
    by (simp_all add: st'_def finished_diff visited_dom parent_of_def fun_eq_iff)
  have rec: "recorded st' e' = (recorded st e' \<or> e' = e)" for e'
    by (auto simp: recorded_def fields)
  have inc: "source e = u \<or> target e = u"
    using i p incident_at [of e g u] unfolding bfs_inv_def u_def by auto
  have uv: "u \<in> visited st" using i unfolding bfs_inv_def u_def by simp
  have ends_visited: "source e \<in> visited st \<and> target e \<in> visited st"
    using inc uv v unfolding u_def [symmetric] by (auto simp: other_end_def split: if_splits)
  have not_tree: "e \<notin> ran (reached_by st)"
    using not_tree_edge [OF i p r] .
  have "bfs_inv g st'"
    unfolding bfs_inv_def
    using i p ends_visited not_tree by (auto simp: fields rec bfs_inv_def)
  then show ?thesis by (simp add: st'_def)
qed

lemma bfs_inv_discover:
  assumes i: "bfs_inv g st" and p: "pending st = e # es"
    and v: "other_end e (current st) \<notin> visited st"
  shows "bfs_inv g (st\<lparr>pending := es,
                  view := (view st)\<lparr>tree := add_child (tree (view st)) (current st) (other_end e (current st))\<rparr>,
                  queue := queue st @ [other_end e (current st)],
                  reached_by := (reached_by st)(other_end e (current st) \<mapsto> e)\<rparr>)"
proof -
  define u where "u = current st"
  define v where "v = other_end e u"
  define st' where "st' = st\<lparr>pending := es,
                  view := (view st)\<lparr>tree := add_child (tree (view st)) u v\<rparr>,
                  queue := queue st @ [v],
                  reached_by := (reached_by st)(v \<mapsto> e)\<rparr>"
  have vn: "v \<notin> visited st" using v by (simp add: v_def u_def)
  have uv: "u \<in> visited st" using i unfolding bfs_inv_def u_def by simp
  have une: "u \<noteq> v" using uv vn by auto
  have einc: "e \<in> set (incident_edges g u)"
    using i p unfolding bfs_inv_def u_def by simp
  have inc: "source e = u \<or> target e = u"
    using incident_at [OF einc] .
  have vend: "v = source e \<or> v = target e"
    using other_end_cases [of e u] by (simp add: v_def)
  have vis': "visited st' = insert v (visited st)"
    using uv by (auto simp: st'_def visited_dom dom_add_child)
  have par': "parent_of st' w = (if w = v then Some u else parent_of st w)" for w
    using uv parent_add_child [of u "tree (view st)" v w]
    by (simp add: st'_def parent_of_def visited_dom)
  have fields: "current st' = u" "pending st' = es" "queue st' = queue st @ [v]"
    "reached_by st' = (reached_by st)(v \<mapsto> e)" "crossEdges (view st') = crossEdges (view st)"
    by (simp_all add: st'_def u_def)
  have qs: "set (queue st) \<subseteq> visited st" "distinct (queue st)" "u \<notin> set (queue st)"
    using i unfolding bfs_inv_def u_def by simp_all
  have vq: "v \<notin> set (queue st)" using qs(1) vn by auto
  have fin': "finished st' = finished st"
    using vn une by (auto simp: finished_diff vis' fields u_def)
  have old_reached: "w \<in> visited st" if "reached_by st w = Some e'" for w e'
  proof -
    from i that obtain p' where "parent_of st w = Some p'" unfolding bfs_inv_def by blast
    then show ?thesis by (auto simp: parent_of_def visited_dom)
  qed
  have vfree: "reached_by st v = None"
    using old_reached [of v] vn by (cases "reached_by st v") auto
  have ran': "ran (reached_by st') = insert e (ran (reached_by st))"
    using vfree by (simp add: fields)
  have rec: "recorded st' e' = (recorded st e' \<or> e' = e)" for e'
    unfolding recorded_def ran' by (auto simp: fields)
  have c1: "current st' \<in> visited st'" using uv by (simp add: fields vis')
  have c2: "set (queue st') \<subseteq> visited st'" using qs(1) by (auto simp: fields vis')
  have c3: "distinct (queue st')" using qs(2) vq by (simp add: fields)
  have c4: "current st' \<notin> set (queue st')" using qs(3) une by (simp add: fields)
  have c5: "distinct (pending st')" using i p unfolding bfs_inv_def by (simp add: fields)
  have c6: "set (pending st') \<subseteq> set (incident_edges g (current st'))"
    using i p unfolding bfs_inv_def by (simp add: fields u_def)
  have c7: "\<forall>w e'. reached_by st' w = Some e' \<longrightarrow>
         (\<exists>p'. parent_of st' w = Some p' \<and> p' \<in> visited st' \<and> p' \<notin> set (queue st') \<and> p' \<noteq> w \<and> joins e' p' w)"
  proof (intro allI impI)
    fix w e' assume r: "reached_by st' w = Some e'"
    show "\<exists>p'. parent_of st' w = Some p' \<and> p' \<in> visited st' \<and> p' \<notin> set (queue st') \<and> p' \<noteq> w \<and> joins e' p' w"
    proof (cases "w = v")
      case True
      then have "e' = e" using r by (simp add: fields)
      moreover have "joins e u v" using other_end_joins [OF inc] by (simp add: v_def)
      ultimately show ?thesis
        using True uv qs(3) une by (simp add: par' vis' fields)
    next
      case False
      then have "reached_by st w = Some e'" using r by (simp add: fields)
      with i obtain p' where p': "parent_of st w = Some p'" "p' \<in> visited st"
        "p' \<notin> set (queue st)" "p' \<noteq> w" "joins e' p' w"
        unfolding bfs_inv_def by blast
      have "p' \<noteq> v" using p'(2) vn by auto
      then show ?thesis using False p' by (simp add: par' vis' fields)
    qed
  qed
  have c8: "\<forall>w e'. reached_by st' w = Some e' \<and> parent_of st' w = Some (current st') \<longrightarrow> e' \<notin> set (pending st')"
  proof (intro allI impI, elim conjE)
    fix w e' assume r: "reached_by st' w = Some e'" and pa: "parent_of st' w = Some (current st')"
    show "e' \<notin> set (pending st')"
    proof (cases "w = v")
      case True
      then have "e' = e" using r by (simp add: fields)
      moreover have "e \<notin> set es" using i p unfolding bfs_inv_def by simp
      ultimately show ?thesis by (simp add: fields)
    next
      case False
      then have "reached_by st w = Some e'" "parent_of st w = Some (current st)"
        using r pa by (simp_all add: fields par' u_def)
      with i have "e' \<notin> set (pending st)" unfolding bfs_inv_def by blast
      then show ?thesis using p by (simp add: fields)
    qed
  qed
  have c9: "\<forall>e' \<in> set (crossEdges (view st')). source e' \<in> visited st' \<and> target e' \<in> visited st'"
    using i unfolding bfs_inv_def by (simp add: fields vis')
  have c10: "\<forall>e' \<in> set (crossEdges (view st')). e' \<notin> ran (reached_by st')"
  proof
    fix e' assume e': "e' \<in> set (crossEdges (view st'))"
    then have old: "e' \<in> set (crossEdges (view st))" by (simp add: fields)
    with i have a: "e' \<notin> ran (reached_by st)" and b: "source e' \<in> visited st \<and> target e' \<in> visited st"
      unfolding bfs_inv_def by blast+
    have "e' \<noteq> e" using b vend vn by auto
    then show "e' \<notin> ran (reached_by st')" using a unfolding ran' by simp
  qed
  have c11: "\<forall>x \<in> finished st'. \<forall>e' \<in> set (incident_edges g x). recorded st' e'"
    using i unfolding bfs_inv_def fin' by (simp add: rec)
  have c12: "\<forall>e' \<in> set (incident_edges g (current st')). e' \<notin> set (pending st') \<longrightarrow> recorded st' e'"
    using i p unfolding bfs_inv_def by (auto simp: rec fields u_def)
  have "bfs_inv g st'"
    unfolding bfs_inv_def using c1 c2 c3 c4 c5 c6 c7 c8 c9 c10 c11 c12 by blast
  then show ?thesis by (simp add: st'_def u_def v_def)
qed

lemma bfs_inv_step:
  assumes d: "distinct (map fst (edge_list g))" and i: "bfs_inv g st"
  shows "bfs_inv g (step g again st)"
proof (cases "pending st")
  case Nil
  show ?thesis
  proof (cases "queue st")
    case Nil': Nil
    with Nil i show ?thesis by (simp add: step_done)
  next
    case (Cons u q)
    with Nil bfs_inv_pop [OF d i] show ?thesis by (simp add: step_pop)
  qed
next
  case (Cons e es)
  show ?thesis
  proof (cases "other_end e (current st) \<in> visited st")
    case False
    with Cons bfs_inv_discover [OF i] show ?thesis by (simp add: step_discover)
  next
    case True
    show ?thesis
    proof (cases "reached_by st (current st) = Some e \<or>
                  (\<not> again \<and> other_end e (current st) \<in> finished st)")
      case True': True
      then have "step g again st = st\<lparr>pending := es\<rparr>"
        using step_skip [OF Cons True] by blast
      moreover have "bfs_inv g (st\<lparr>pending := es\<rparr>)"
        using bfs_inv_skip [OF i Cons] True' by blast
      ultimately show ?thesis by simp
    next
      case False
      then have "step g again st =
                   st\<lparr>pending := es, view := (view st)\<lparr>crossEdges := crossEdges (view st) @ [e]\<rparr>\<rparr>"
        using step_record [OF Cons True] by blast
      moreover have "bfs_inv g (st\<lparr>pending := es, view := (view st)\<lparr>crossEdges := crossEdges (view st) @ [e]\<rparr>\<rparr>)"
        using bfs_inv_record [OF i Cons True] False by blast
      ultimately show ?thesis by simp
    qed
  qed
qed

lemma bfs_inv_reachable:
  assumes "distinct (map fst (edge_list g))"
  shows "bfs_inv g ((step g again ^^ n) (start g root))"
  by (induction n) (simp_all add: bfs_inv_start [OF assms] bfs_inv_step [OF assms])

lemma traverse_step: "traverse g again (step g again st) = traverse g again st"
proof (cases "pending st = [] \<and> queue st = []")
  case True
  then show ?thesis by (simp add: step_done)
next
  case False
  have "traverse g again st =
          (if pending st = [] \<and> queue st = [] then st else traverse g again (step g again st))"
    by (rule traverse.simps)
  with False show ?thesis by metis
qed

lemma traverse_funpow: "traverse g again ((step g again ^^ n) st) = traverse g again st"
  by (induction n) (simp_all add: traverse_step)

lemma traverse_reached: "\<exists>m. traverse g again st = (step g again ^^ m) st"
proof (induction g again st rule: traverse.induct)
  case (1 g again st)
  show ?case
  proof (cases "pending st = [] \<and> queue st = []")
    case True
    then have "traverse g again st = (step g again ^^ 0) st" by (subst traverse.simps) simp
    then show ?thesis by blast
  next
    case False
    with 1 obtain m where "traverse g again (step g again st) = (step g again ^^ m) (step g again st)"
      by blast
    then have "traverse g again st = (step g again ^^ Suc m) st"
      by (simp add: traverse_step funpow_swap1)
    then show ?thesis by blast
  qed
qed

lemma traverse_complete:
  "pending (traverse g again st) = [] \<and> queue (traverse g again st) = []"
proof (induction g again st rule: traverse.induct)
  case (1 g again st)
  show ?case
  proof (cases "pending st = [] \<and> queue st = []")
    case True
    then have "traverse g again st = st" by (subst traverse.simps) simp
    with True show ?thesis by simp
  next
    case False
    with 1 show ?thesis by (simp add: traverse_step)
  qed
qed

lemma crossEdges_step: "set (crossEdges (view st)) \<subseteq> set (crossEdges (view (step g again st)))"
  by (auto simp: step_def examine_def Let_def split: list.splits)

lemma crossEdges_funpow:
  "set (crossEdges (view st)) \<subseteq> set (crossEdges (view ((step g again ^^ m) st)))"
proof (induction m)
  case 0
  show ?case by simp
next
  case (Suc m)
  then show ?case using crossEdges_step [of "(step g again ^^ m) st" g again] by auto
qed

lemma crossEdges_final:
  "set (crossEdges (view st)) \<subseteq> set (crossEdges (view (traverse g again st)))"
  using traverse_reached crossEdges_funpow by metis

lemma tree_examined_visited:
  assumes "pending st = e # es" and "other_end e (current st) \<in> visited st"
  shows "tree (view (step g again st)) = tree (view st)"
  using assms by (auto simp: step_def examine_def Let_def visited_def is_visited_def)

subsection \<open>Cross edges\<close>

lemma cycle_state_reached:
  "(step cycle_ABC False ^^ 6) (start cycle_ABC 1) = cycle_state"
  by (simp add: eval_nat_numeral step_def start_def examine_def incident_edges_def cycle_ABC_def
      source_def target_def other_end_def is_visited_def is_finished_def add_child_def
      cycle_state_def TreeView_default_def Let_def fun_upd_twist insert_commute)

lemma getTree_cycle:
  "getTree cycle_ABC False 1 =
     Inr (TreeView_default
         \<lparr>tree := [1 \<mapsto> \<lparr>parent = null_vertex, children = {2, 3}\<rparr>,
                   2 \<mapsto> \<lparr>parent = 1, children = {}\<rparr>,
                   3 \<mapsto> \<lparr>parent = 1, children = {}\<rparr>],
          crossEdges := [(2, 3, 2)]\<rparr>)"
  by (simp add: getTree_def has_vertex_def traverse.simps step_def start_def examine_def
      incident_edges_def cycle_ABC_def source_def target_def other_end_def is_visited_def
      is_finished_def add_child_def TreeView_default_def Let_def fun_upd_twist insert_commute)

text \<open>
  C9.  Take any state the construction of a TreeView passes through, in a graph whose
  edge descriptors are distinct and which holds the root, and let the edge examined next
  be an incident edge of the vertex being processed that leads to an already visited
  neighbour and is not the tree edge by which that vertex was reached.  Then after the
  examination the edge is in \<open>crossEdges\<close> (appended by this very examination when
  edges are recorded at every examination), the examination adds nothing to the tree,
  the edge is in \<open>crossEdges\<close> of the TreeView that is returned, and it is none of the
  tree edges of the finished traversal.  This holds whether or not an edge leading to a
  finished vertex is recorded a second time.
\<close>

theorem cross_edges_recorded:
  assumes d: "distinct (map fst (edge_list g))" and root: "has_vertex g root"
    and st: "st = (step g again ^^ n) (start g root)"
    and p: "pending st = e # es"
    and v: "is_visited st (other_end e (current st))"
    and r: "reached_by st (current st) \<noteq> Some e"
  shows "e \<in> set (crossEdges (view (step g again st))) \<and>
         (again \<longrightarrow> crossEdges (view (step g again st)) = crossEdges (view st) @ [e]) \<and>
         tree (view (step g again st)) = tree (view st) \<and>
         (\<exists>tv. getTree g again root = Inr tv \<and> e \<in> set (crossEdges tv)) \<and>
         e \<notin> ran (reached_by (traverse g again (start g root)))"
proof -
  have v': "other_end e (current st) \<in> visited st" using v by (simp add: visited_def)
  have i: "bfs_inv g st" unfolding st by (rule bfs_inv_reachable [OF d])
  have nt: "e \<notin> ran (reached_by st)" using not_tree_edge [OF i p r] .
  have a: "e \<in> set (crossEdges (view (step g again st)))"
  proof (cases "again \<or> other_end e (current st) \<notin> finished st")
    case True
    show ?thesis using step_record [OF p v' r True, of g] by simp
  next
    case False
    then have f: "other_end e (current st) \<in> finished st" by simp
    have "e \<in> set (incident_edges g (current st))"
      using i p unfolding bfs_inv_def by simp
    from incident_other_end [OF this] f i have "recorded st e"
      unfolding bfs_inv_def by blast
    with nt have "e \<in> set (crossEdges (view st))" by (simp add: recorded_def)
    then show ?thesis using crossEdges_step by blast
  qed
  have a': "again \<longrightarrow> crossEdges (view (step g again st)) = crossEdges (view st) @ [e]"
  proof
    assume again
    then show "crossEdges (view (step g again st)) = crossEdges (view st) @ [e]"
      using step_record [OF p v' r, of again g] by simp
  qed
  from a have "e \<in> set (crossEdges (view (traverse g again (step g again st))))"
    using crossEdges_final by blast
  then have b: "e \<in> set (crossEdges (view (traverse g again (start g root))))"
    by (simp add: traverse_step st traverse_funpow)
  then have b': "\<exists>tv. getTree g again root = Inr tv \<and> e \<in> set (crossEdges tv)"
    using root by (simp add: getTree_def)
  obtain m where m: "traverse g again (start g root) = (step g again ^^ m) (start g root)"
    using traverse_reached by blast
  have "bfs_inv g (traverse g again (start g root))"
    unfolding m by (rule bfs_inv_reachable [OF d])
  then have "e \<notin> ran (reached_by (traverse g again (start g root)))"
    using b unfolding bfs_inv_def by blast
  with a a' b' tree_examined_visited [OF p v'] show ?thesis by blast
qed

theorem cross_edges_recorded_witness:
  "distinct (map fst (edge_list cycle_ABC)) \<and> has_vertex cycle_ABC 1 \<and>
   cycle_state = (step cycle_ABC False ^^ 6) (start cycle_ABC 1) \<and>
   pending cycle_state = [(2, 3, 2), (3, 1, 3)] \<and>
   is_visited cycle_state (other_end (2, 3, 2) (current cycle_state)) \<and>
   is_finished cycle_state (other_end (2, 3, 2) (current cycle_state)) \<and>
   reached_by cycle_state (current cycle_state) \<noteq> Some (2, 3, 2) \<and>
   (2, 3, 2) \<in> set (crossEdges (view (step cycle_ABC False cycle_state))) \<and>
   tree (view (step cycle_ABC False cycle_state)) = tree (view cycle_state) \<and>
   (\<exists>tv. getTree cycle_ABC False 1 = Inr tv \<and> (2, 3, 2) \<in> set (crossEdges tv)) \<and>
   (2, 3, 2) \<notin> ran (reached_by (traverse cycle_ABC False (start cycle_ABC 1)))"
proof -
  have h1: "distinct (map fst (edge_list cycle_ABC))" "has_vertex cycle_ABC 1"
    by (simp_all add: cycle_ABC_def has_vertex_def)
  have h2: "cycle_state = (step cycle_ABC False ^^ 6) (start cycle_ABC 1)"
    by (rule cycle_state_reached [symmetric])
  have h3: "pending cycle_state = [(2, 3, 2), (3, 1, 3)]"
    "is_visited cycle_state (other_end (2, 3, 2) (current cycle_state))"
    "reached_by cycle_state (current cycle_state) \<noteq> Some (2, 3, 2)"
    by (simp_all add: cycle_state_def is_visited_def other_end_def source_def target_def
        TreeView_default_def)
  have h4: "is_finished cycle_state (other_end (2, 3, 2) (current cycle_state))"
    by (simp add: cycle_state_def is_visited_def is_finished_def other_end_def source_def
        target_def TreeView_default_def)
  show ?thesis
    using h1 h2 h3 h4 cross_edges_recorded [OF h1 h2 h3]
    by blast
qed

end
